theory Spec2Isabelle
  imports Main "HOL-Library.Sublist"
begin

section \<open>JavaScript strings\<close>

text \<open>
  A JavaScript string is a sequence of code units; the model covers the code units
  below 256 and reads a \<^typ>\<open>char\<close> as the code unit of the same number. Length is the
  number of code units, as \<^verbatim>\<open>s.length\<close> is.
\<close>

definition is_ws :: "char \<Rightarrow> bool" where
  \<comment> \<open>White space of \<^verbatim>\<open>trim()\<close> and of \<^verbatim>\<open>\s\<close>: tab, line feed, vertical tab, form feed,
      carriage return, space and the no-break space.\<close>
  "is_ws c = (of_char c \<in> {9, 10, 11, 12, 13, 32, 160 :: nat})"

definition trim :: "string \<Rightarrow> string" where
  "trim s = rev (dropWhile is_ws (rev (dropWhile is_ws s)))"

definition lower_char :: "char \<Rightarrow> char" where
  \<comment> \<open>\<^verbatim>\<open>toLowerCase()\<close> on one code unit below 256: A-Z, and the Latin-1 capitals
      other than the multiplication sign, move up by 32.\<close>
  "lower_char c =
     (let n = (of_char c :: nat)
      in if (65 \<le> n \<and> n \<le> 90) \<or> (192 \<le> n \<and> n \<le> 222 \<and> n \<noteq> 215)
         then char_of (n + 32) else c)"

definition toLowerCase :: "string \<Rightarrow> string" where
  "toLowerCase s = map lower_char s"

fun js_includes :: "string \<Rightarrow> string \<Rightarrow> bool" where
  \<comment> \<open>\<^verbatim>\<open>s.includes(p)\<close>: \<open>p\<close> occurs in \<open>s\<close> as a contiguous run.\<close>
  "js_includes [] p = (p = [])"
| "js_includes (c # cs) p = (prefix p (c # cs) \<or> js_includes cs p)"

fun split_on :: "char \<Rightarrow> string \<Rightarrow> string list" where
  \<comment> \<open>\<^verbatim>\<open>s.split(c)\<close> for a separator of one character.\<close>
  "split_on c [] = [[]]"
| "split_on c (x # xs) =
     (if x = c then [] # split_on c xs
      else (case split_on c xs of [] \<Rightarrow> [[x]] | w # ws \<Rightarrow> (x # w) # ws))"

definition at_index :: "'a list \<Rightarrow> nat \<Rightarrow> 'a option" where
  \<comment> \<open>\<^verbatim>\<open>xs[i]\<close>: \<open>None\<close> is \<^verbatim>\<open>undefined\<close>.\<close>
  "at_index xs i = (if i < length xs then Some (xs ! i) else None)"

fun js_join :: "string \<Rightarrow> string list \<Rightarrow> string" where
  \<comment> \<open>\<^verbatim>\<open>xs.join(sep)\<close>\<close>
  "js_join sep [] = []"
| "js_join sep [x] = x"
| "js_join sep (x # y # ys) = x @ sep @ js_join sep (y # ys)"

fun digits_of :: "nat \<Rightarrow> string" where
  \<comment> \<open>The decimal digits of a natural number, as a template literal prints it.\<close>
  "digits_of n =
     (if n < 10 then [char_of (48 + n)]
      else digits_of (n div 10) @ [char_of (48 + n mod 10)])"

section \<open>The data of the chat component\<close>

datatype grounding_chunk = Web string string \<comment> \<open>\<^verbatim>\<open>{web: {uri, title}}\<close>\<close>

record response =
  response_text :: "string option" \<comment> \<open>\<^verbatim>\<open>response.text\<close>, \<open>None\<close> when undefined\<close>
  groundingChunks :: "grounding_chunk list"

datatype part =
  Text string \<comment> \<open>\<^verbatim>\<open>{text}\<close>\<close>
| InlineData "string option" string \<comment> \<open>\<^verbatim>\<open>{inlineData: {data, mimeType}}\<close>\<close>
| FileData string string \<comment> \<open>\<^verbatim>\<open>{fileData: {mimeType, fileUri}}\<close>\<close>

datatype tool = GoogleSearch

record config =
  tools :: "tool list option" \<comment> \<open>\<open>None\<close>: the config object has no \<^verbatim>\<open>tools\<close>\<close>

record file_ref = \<comment> \<open>\<^verbatim>\<open>{uri, mimeType}\<close>, the shape of \<^verbatim>\<open>videoContextFile\<close>\<close>
  uri :: string
  mimeType :: string

record context_file = file_ref + \<comment> \<open>an uploaded file with the upload flag; a display name
    that is undefined is the empty string here, which \<^verbatim>\<open>join\<close> and \<^verbatim>\<open>||\<close> treat alike\<close>
  displayName :: string
  isUploading :: bool

record screen_capture =
  dataUrl :: string

record js_file = \<comment> \<open>a \<^verbatim>\<open>File\<close> the user picked\<close>
  file_name :: string
  file_type :: string

record file_preview = \<comment> \<open>\<^verbatim>\<open>ManagedContent['file']\<close>\<close>
  preview_url :: "string option"
  preview_name :: string
  preview_type :: string

datatype role = User | Model

record managed_content =
  role :: role
  content_text :: "string option"
  content_file :: "file_preview option"
  grounding :: "grounding_chunk list option"
  youtubeVideoId :: "string option"
  content_screenCaptures :: "string list"
  contextFilesUsed :: "string list"

text \<open>
  A parsed JSON value, as \<^verbatim>\<open>JSON.parse\<close> returns it. The import reads no number, so
  the model keeps an integer in its place.
\<close>

datatype json =
  JNull
| JBool bool
| JNumber int
| JString string
| JArray "json list"
| JObject "(string \<times> json) list"

text \<open>
  An entry of the log is a message the component built, or an object of an imported
  file, which the import stores as it is.
\<close>

datatype log_entry = Built managed_content | Imported json

record live_chat =
  isProcessing :: bool
  status :: string
  error :: string
  chatHistory :: "log_entry list"
  promptFile :: "js_file option"
  promptFilePreview :: "string option"
  isTtsEnabled :: bool
  textInputValue :: string
  screenCaptures :: "screen_capture list"
  contextFiles :: "context_file list"
  isVideoContextSent :: bool
  videoContextFile :: "file_ref option"

section \<open>The dispatcher: \<^verbatim>\<open>_sendMessageWithRetry\<close>\<close>

text \<open>
  \<^verbatim>\<open>this.chat.sendMessage\<close> is the backend: it either returns a response or throws an
  error, of which the code reads only the message. The model takes the backend as a
  function from the number of the call (0 for the first call of a send) to its outcome,
  \<open>Inl\<close> the message of the error thrown.
\<close>

type_synonym backend = "nat \<Rightarrow> string + response"

text \<open>What a send does that the outside can see, in order.\<close>

datatype effect =
  Attempt "part list" config \<comment> \<open>a call of \<^verbatim>\<open>chat.sendMessage({message, config})\<close>\<close>
| Status string \<comment> \<open>an assignment to \<^verbatim>\<open>this.status\<close> inside the retry loop\<close>
| Sleep nat \<comment> \<open>\<^verbatim>\<open>setTimeout(resolve, delay)\<close>, awaited\<close>

definition isRateLimit :: "string \<Rightarrow> bool" where
  "isRateLimit message =
     (let errorMessage = toLowerCase message
      in js_includes errorMessage ''429'' \<or> js_includes errorMessage ''resource_exhausted'')"

definition isServerError :: "string \<Rightarrow> bool" where
  "isServerError message =
     (let errorMessage = toLowerCase message
      in js_includes errorMessage ''500'' \<or> js_includes errorMessage ''internal'')"

definition retry_status :: "string \<Rightarrow> nat \<Rightarrow> string" where
  \<comment> \<open>The status line before a sleep. \<open>delay\<close> is a multiple of 1000 wherever the loop
      prints it, so \<^verbatim>\<open>delay / 1000\<close> is the integer quotient.\<close>
  "retry_status message delay =
     (if isRateLimit message then ''Rate limit hit'' else ''Server error'')
       @ ''. Retrying in '' @ digits_of (delay div 1000) @ ''s...''"

definition final_error :: "string option \<Rightarrow> string" where
  \<comment> \<open>The error thrown after the loop; \<open>lastError\<close> is \<open>None\<close> for \<^verbatim>\<open>null\<close>.\<close>
  "final_error lastError =
     (if (case lastError of None \<Rightarrow> False | Some m \<Rightarrow> js_includes (toLowerCase m) ''429'')
      then ''API rate limit exceeded'' else ''A server error occurred'')
       @ '' after multiple retries. Please try again later. Original error: ''
       @ (case lastError of None \<Rightarrow> ''undefined'' | Some m \<Rightarrow> m)"

fun retry_loop ::
  "backend \<Rightarrow> part list \<Rightarrow> config \<Rightarrow> nat \<Rightarrow> nat \<Rightarrow> nat \<Rightarrow> string option \<Rightarrow> effect list
     \<Rightarrow> (string + response) \<times> effect list" where
  \<comment> \<open>The \<^verbatim>\<open>while (retries > 0)\<close> loop: \<open>retries\<close>, the number of calls made so far, \<open>delay\<close>,
      \<open>lastError\<close>, and the effects so far.\<close>
  "retry_loop chat parts cfg 0 made delay lastError effects = (Inl (final_error lastError), effects)"
| "retry_loop chat parts cfg (Suc retries) made delay lastError effects =
     (case chat made of
        Inr response \<Rightarrow> (Inr response, effects @ [Attempt parts cfg])
      | Inl message \<Rightarrow>
          if isRateLimit message \<or> isServerError message then
            if retries > 0 then
              retry_loop chat parts cfg retries (Suc made) (delay * 2) (Some message)
                (effects @ [Attempt parts cfg, Status (retry_status message delay), Sleep delay])
            else
              retry_loop chat parts cfg retries (Suc made) delay (Some message)
                (effects @ [Attempt parts cfg])
          else (Inl message, effects @ [Attempt parts cfg]))"

definition sendMessageWithRetry ::
  "backend \<Rightarrow> part list \<Rightarrow> config \<Rightarrow> (string + response) \<times> effect list" where
  "sendMessageWithRetry chat parts cfg = retry_loop chat parts cfg 3 0 1000 None []"

definition is_attempt :: "effect \<Rightarrow> bool" where
  "is_attempt e = (case e of Attempt _ _ \<Rightarrow> True | _ \<Rightarrow> False)"

definition is_status :: "effect \<Rightarrow> bool" where
  "is_status e = (case e of Status _ \<Rightarrow> True | _ \<Rightarrow> False)"

definition attempts :: "effect list \<Rightarrow> nat" where
  \<comment> \<open>The number of calls of the backend.\<close>
  "attempts es = length (filter is_attempt es)"

definition calls_and_sleeps :: "effect list \<Rightarrow> effect list" where
  \<comment> \<open>The effects without the status lines: the calls and the sleeps between them.\<close>
  "calls_and_sleeps es = filter (\<lambda>e. \<not> is_status e) es"

definition retriable :: "string \<Rightarrow> bool" where
  \<comment> \<open>The two classes of error the loop retries.\<close>
  "retriable message = (isRateLimit message \<or> isServerError message)"

section \<open>Assembling and sending a prompt: \<^verbatim>\<open>_processPrompt\<close> and \<^verbatim>\<open>_sendMessage\<close>\<close>

text \<open>
  \<^verbatim>\<open>getYouTubeVideoId\<close> comes from a module that is not part of the sources at hand; the
  functions below take it as the parameter \<open>getId\<close>, \<open>None\<close> for \<^verbatim>\<open>null\<close>. The code tests
  its result for truthiness, which for a string is being non-empty.
\<close>

definition truthy :: "string option \<Rightarrow> bool" where
  "truthy v = (case v of None \<Rightarrow> False | Some x \<Rightarrow> x \<noteq> [])"

text \<open>
  How the awaited \<^verbatim>\<open>_speak\<close> ends once it is past its first test: it returns (the chunks
  are queued, or the window has no speech synthesis), its catch block reports the error
  thrown in its try block, or it never returns, \<^verbatim>\<open>getVoices\<close> waiting for voices that never
  load.
\<close>

datatype speech = SpeechReturns | SpeechFails string | SpeechNeverReturns

text \<open>
  What a send takes from the browser and the backend: the data URL that reading the
  attached file gives (or the message of the error thrown), the object URL made for the
  preview, the backend, and how speaking the reply ends.
\<close>

record send_env =
  readAsDataURL :: "string + string"
  createObjectURL :: string
  chat_sendMessage :: backend
  speak_outcome :: speech

definition capture_part :: "screen_capture \<Rightarrow> part" where
  "capture_part capture = InlineData (at_index (split_on CHR '','' (dataUrl capture)) 1) ''image/jpeg''"

definition context_part :: "context_file \<Rightarrow> part" where
  "context_part contextFile = FileData (mimeType contextFile) (uri contextFile)"

definition activeContextFiles :: "live_chat \<Rightarrow> context_file list" where
  "activeContextFiles s = filter (\<lambda>f. \<not> isUploading f) (contextFiles s)"

definition contextPrompt :: "live_chat \<Rightarrow> string" where
  "contextPrompt s =
     (if activeContextFiles s \<noteq> [] then
        ''Using the provided file(s) ('' @ js_join '', '' (map displayName (activeContextFiles s))
          @ '') as context, ''
      else [])"

definition sendsVideoContext :: "live_chat \<Rightarrow> bool" where
  \<comment> \<open>\<^verbatim>\<open>this.videoContextFile && !this.isVideoContextSent\<close>\<close>
  "sendsVideoContext s = (videoContextFile s \<noteq> None \<and> \<not> isVideoContextSent s)"

definition video_parts :: "live_chat \<Rightarrow> part list" where
  "video_parts s =
     (case videoContextFile s of
        Some v \<Rightarrow> if \<not> isVideoContextSent s then [FileData (mimeType v) (uri v)] else []
      | None \<Rightarrow> [])"

definition fileToGenerativePart :: "send_env \<Rightarrow> js_file \<Rightarrow> string + part" where
  "fileToGenerativePart env file =
     (case readAsDataURL env of
        Inl e \<Rightarrow> Inl e
      | Inr result \<Rightarrow> Inr (InlineData (at_index (split_on CHR '','' result) 1) (file_type file)))"

text \<open>
  The request \<^verbatim>\<open>_processPrompt\<close> assembles before it calls the dispatcher: the parts as
  they stand after \<^verbatim>\<open>parts.unshift\<close>, the config, the optimistic user message and the
  local \<^verbatim>\<open>sentVideoContext\<close>.
\<close>

record assembled =
  a_parts :: "part list"
  a_config :: config
  a_useSearch :: bool
  a_userMessage :: managed_content
  a_sentVideoContext :: bool

definition pushed_parts :: "live_chat \<Rightarrow> part list \<Rightarrow> part list" where
  \<comment> \<open>\<^verbatim>\<open>parts\<close> after the pushes, before the text part is put in front.\<close>
  "pushed_parts s fileParts =
     map capture_part (screenCaptures s) @ map context_part (activeContextFiles s)
       @ video_parts s @ fileParts"

definition apiText :: "(string \<Rightarrow> string option) \<Rightarrow> live_chat \<Rightarrow> string \<Rightarrow> part list \<Rightarrow> string" where
  \<comment> \<open>The final value of the variable \<^verbatim>\<open>apiText\<close>, given the pushed parts.\<close>
  "apiText getId s promptText parts =
     (let t1 = (if sendsVideoContext s then ''Using the provided video as context, '' @ promptText
                else promptText);
          t2 = (if truthy (getId promptText) then
                  ''Please analyze this youtube video and answer my questions. The video is at this URL: ''
                    @ promptText
                else t1)
      in if parts \<noteq> [] \<and> trim t2 = [] then ''Describe the provided file(s).'' else t2)"

definition assemble ::
  "(string \<Rightarrow> string option) \<Rightarrow> live_chat \<Rightarrow> string \<Rightarrow> (part \<times> file_preview) option \<Rightarrow> assembled" where
  \<comment> \<open>\<open>attached\<close> is the part and the preview made of the attached file, when there is one.\<close>
  "assemble getId s promptText attached =
     (let youTubeVideoId = getId promptText;
          parts = pushed_parts s (case attached of None \<Rightarrow> [] | Some (p, _) \<Rightarrow> [p]);
          userMessage = \<lparr>role = User, content_text = Some promptText,
            content_file = map_option snd attached, grounding = None,
            youtubeVideoId = youTubeVideoId,
            content_screenCaptures = map dataUrl (screenCaptures s),
            contextFilesUsed =
              map (\<lambda>f. if displayName f \<noteq> [] then displayName f else ''file'') (activeContextFiles s)\<rparr>;
          useSearch = (\<not> truthy youTubeVideoId \<and> length parts = length (activeContextFiles s))
      in \<lparr>a_parts = Text (contextPrompt s @ apiText getId s promptText parts) # parts,
          a_config = \<lparr>tools = (if useSearch then Some [GoogleSearch] else None)\<rparr>,
          a_useSearch = useSearch,
          a_userMessage = userMessage,
          a_sentVideoContext = sendsVideoContext s\<rparr>)"

definition failure_text :: "string \<Rightarrow> string" where
  \<comment> \<open>The text the catch block of \<^verbatim>\<open>_processPrompt\<close> puts into \<^verbatim>\<open>this.error\<close>.\<close>
  "failure_text errorMessage =
     (if js_includes (toLowerCase errorMessage) ''exceeds the maximum number of tokens allowed'' then
        ''Your request is too long. Please reduce text length, remove some files/captures, or start a new chat to reduce history size.''
      else if js_includes (toLowerCase errorMessage) ''api key not valid'' then
        ''The API key is invalid. Please check your configuration.''
      else errorMessage)"

definition clearFile :: "live_chat \<Rightarrow> live_chat" where
  "clearFile s = s\<lparr>promptFile := None, promptFilePreview := None\<rparr>"

definition clearScreenCaptures :: "live_chat \<Rightarrow> live_chat" where
  "clearScreenCaptures s = s\<lparr>screenCaptures := []\<rparr>"

definition attach_file :: "send_env \<Rightarrow> js_file option \<Rightarrow> string + (part \<times> file_preview) option" where
  \<comment> \<open>The block \<^verbatim>\<open>if (file) { try { ... } catch { ... } }\<close>: the part and the preview of the
      attached file, or the message of the error thrown while reading it.\<close>
  "attach_file env file =
     (case file of
        None \<Rightarrow> Inr None
      | Some f \<Rightarrow>
          (case fileToGenerativePart env f of
             Inl e \<Rightarrow> Inl e
           | Inr filePart \<Rightarrow>
               Inr (Some (filePart,
                 \<lparr>preview_url = Some (createObjectURL env), preview_name = file_name f,
                  preview_type = file_type f\<rparr>))))"

definition file_failed :: "string \<Rightarrow> live_chat \<Rightarrow> live_chat" where
  \<comment> \<open>The catch block around the reading of the attached file.\<close>
  "file_failed e s =
     s\<lparr>error := ''Error processing file: '' @ e, isProcessing := False,
       status := ''Click the mic or type to talk''\<rparr>"

definition on_success :: "assembled \<Rightarrow> response \<Rightarrow> live_chat \<Rightarrow> live_chat" where
  \<comment> \<open>The rest of the try block once the dispatcher has returned.\<close>
  "on_success a response s =
     (let s3 = s\<lparr>chatHistory := chatHistory s @
                 [Built \<lparr>role = Model, content_text = response_text response,
                    content_file = None, grounding = Some (groundingChunks response),
                    youtubeVideoId = None, content_screenCaptures = [],
                    contextFilesUsed = []\<rparr>]\<rparr>;
          s4 = (if a_sentVideoContext a then s3\<lparr>isVideoContextSent := True\<rparr> else s3)
      in clearScreenCaptures (clearFile s4))"

definition on_failure :: "string \<Rightarrow> live_chat \<Rightarrow> live_chat" where
  \<comment> \<open>The catch block: the error text, and \<^verbatim>\<open>chatHistory.slice(0, -1)\<close>.\<close>
  "on_failure e s =
     (let s3 = s\<lparr>error := failure_text e\<rparr>
      in s3\<lparr>chatHistory := butlast (chatHistory s3)\<rparr>)"

definition finally_block :: "live_chat \<Rightarrow> live_chat" where
  "finally_block s = s\<lparr>isProcessing := False, status := ''Click the mic or type to talk''\<rparr>"

definition speak :: "send_env \<Rightarrow> string option \<Rightarrow> live_chat \<Rightarrow> live_chat option" where
  \<comment> \<open>\<^verbatim>\<open>if (this.isTtsEnabled) await this._speak(text)\<close>, for what it does to the fields of
      the component: \<open>None\<close> when it never returns. \<^verbatim>\<open>_speak\<close> returns at once when speech
      is disabled or the text is undefined or blank; past that test all of its body is in
      a try block, so that it throws nothing. The chunks it queues are \<open>utterances\<close>
      below.\<close>
  "speak env text s =
     (if \<not> isTtsEnabled s \<or> (case text of None \<Rightarrow> True | Some t \<Rightarrow> trim t = []) then Some s
      else
        (case speak_outcome env of
           SpeechReturns \<Rightarrow> Some s
         | SpeechFails e \<Rightarrow> Some (s\<lparr>error := ''Failed to initialize text-to-speech: '' @ e\<rparr>)
         | SpeechNeverReturns \<Rightarrow> None))"

text \<open>
  How a call of \<^verbatim>\<open>_processPrompt\<close> ends: it returns, it throws an error (of which the
  caller reads nothing, the message is kept here), or it stays pending for ever.
\<close>

datatype completion = Returned | Threw string | Pending

definition processPrompt ::
  "(string \<Rightarrow> string option) \<Rightarrow> send_env \<Rightarrow> string \<Rightarrow> js_file option \<Rightarrow> live_chat
     \<Rightarrow> completion \<times> live_chat \<times> effect list" where
  \<comment> \<open>How the call ends, the component afterwards, and the effects of the dispatcher.
      A call that stays pending has not reached its finally block.\<close>
  "processPrompt getId env promptText file s0 =
     (let s1 = s0\<lparr>isProcessing := True, status := ''Thinking...'', error := []\<rparr>
      in case attach_file env file of
           Inl e \<Rightarrow> (Threw e, file_failed e s1, [])
         | Inr attached \<Rightarrow>
             (let a = assemble getId s1 promptText attached;
                  s2 = s1\<lparr>chatHistory := chatHistory s1 @ [Built (a_userMessage a)]\<rparr>;
                  sent = sendMessageWithRetry (chat_sendMessage env) (a_parts a) (a_config a)
              in case fst sent of
                   Inr response \<Rightarrow>
                     (case speak env (response_text response) (on_success a response s2) of
                        Some s6 \<Rightarrow> (Returned, finally_block s6, snd sent)
                      | None \<Rightarrow> (Pending, on_success a response s2, snd sent))
                 | Inl e \<Rightarrow> (Threw e, finally_block (on_failure e s2), snd sent)))"

text \<open>
  Which way \<^verbatim>\<open>_sendMessage\<close> left: the early return, the end of the try block, the catch;
  or it has not left, the call of \<^verbatim>\<open>_processPrompt\<close> it awaits staying pending.
\<close>

datatype outcome = NotSent | Succeeded | Failed | InFlight

definition sendMessage ::
  "(string \<Rightarrow> string option) \<Rightarrow> send_env \<Rightarrow> live_chat \<Rightarrow> outcome \<times> live_chat \<times> effect list" where
  "sendMessage getId env s =
     (let text = trim (textInputValue s)
      in if text = [] \<and> promptFile s = None \<and> length (screenCaptures s) = 0 then (NotSent, s, [])
         else
           (case processPrompt getId env text (promptFile s) s of
              (Returned, s', effects) \<Rightarrow> (Succeeded, s'\<lparr>textInputValue := []\<rparr>, effects)
            | (Threw e, s', effects) \<Rightarrow> (Failed, s', effects)
            | (Pending, s', effects) \<Rightarrow> (InFlight, s', effects)))"

text \<open>
  A session: the user edits the inputs of the next message and sends, one send after the
  other (the text area and the send button are disabled while a send is in flight). The
  edits stand for the handlers that assign the four fields: \<^verbatim>\<open>_handleTextInput\<close> and the
  speech recognizer for the text, \<^verbatim>\<open>_handleFileUpload\<close> and \<^verbatim>\<open>_clearFile\<close> for the file,
  \<^verbatim>\<open>_captureAndAddScreenFrame\<close>, \<^verbatim>\<open>_removeScreenCapture\<close> and \<^verbatim>\<open>_clearScreenCaptures\<close> for
  the captures, \<^verbatim>\<open>_handleContextFileUpload\<close> and \<^verbatim>\<open>_removeContextFile\<close> for the context
  files. A history import and a new video context, which replace the log, are no part of
  a session. A send that is left in flight keeps the component processing, and the
  interface then offers no further send; a session may go on after it all the same, so
  that the sessions here are all those of the component and more.
\<close>

datatype event =
  SetTextInput string
| SetPromptFile "js_file option"
| SetScreenCaptures "screen_capture list"
| SetContextFiles "context_file list"
| Send send_env

record tally =
  successes :: nat
  failures :: nat
  in_flight :: nat

fun step :: "(string \<Rightarrow> string option) \<Rightarrow> event \<Rightarrow> live_chat \<times> tally \<Rightarrow> live_chat \<times> tally" where
  "step getId (SetTextInput v) (s, t) = (s\<lparr>textInputValue := v\<rparr>, t)"
| "step getId (SetPromptFile f) (s, t) = (s\<lparr>promptFile := f\<rparr>, t)"
| "step getId (SetScreenCaptures cs) (s, t) = (s\<lparr>screenCaptures := cs\<rparr>, t)"
| "step getId (SetContextFiles fs) (s, t) = (s\<lparr>contextFiles := fs\<rparr>, t)"
| "step getId (Send env) (s, t) =
     (case sendMessage getId env s of
        (NotSent, s', _) \<Rightarrow> (s', t)
      | (Succeeded, s', _) \<Rightarrow> (s', t\<lparr>successes := Suc (successes t)\<rparr>)
      | (Failed, s', _) \<Rightarrow> (s', t\<lparr>failures := Suc (failures t)\<rparr>)
      | (InFlight, s', _) \<Rightarrow> (s', t\<lparr>in_flight := Suc (in_flight t)\<rparr>))"

definition run :: "(string \<Rightarrow> string option) \<Rightarrow> event list \<Rightarrow> live_chat \<times> tally \<Rightarrow> live_chat \<times> tally" where
  "run getId events st = fold (step getId) events st"

definition no_sends :: tally where
  "no_sends = \<lparr>successes = 0, failures = 0, in_flight = 0\<rparr>"

definition entry_role :: "log_entry \<Rightarrow> role option" where
  \<comment> \<open>The role of an entry that the component built.\<close>
  "entry_role entry = (case entry of Built m \<Rightarrow> Some (role m) | Imported _ \<Rightarrow> None)"

definition initial :: live_chat where
  \<comment> \<open>The fields as the class initialises them.\<close>
  "initial = \<lparr>isProcessing = False, status = ''Click the mic or type to talk'', error = [],
     chatHistory = [], promptFile = None, promptFilePreview = None, isTtsEnabled = True,
     textInputValue = [],
     screenCaptures = [], contextFiles = [], isVideoContextSent = False,
     videoContextFile = None\<rparr>"

section \<open>Text to speech: the chunks of \<^verbatim>\<open>_speak\<close>\<close>

definition MAX_CHUNK_LENGTH :: nat where
  "MAX_CHUNK_LENGTH = 160"

definition is_punct :: "char \<Rightarrow> bool" where
  \<comment> \<open>The class \<^verbatim>\<open>[.!?]\<close>\<close>
  "is_punct c = (c = CHR ''.'' \<or> c = CHR ''!'' \<or> c = CHR ''?'')"

text \<open>
  \<^verbatim>\<open>text.match(/[^.!?]+[.!?\s]*|[^.!?]+$/g)\<close>. Where the next character is none of
  \<^verbatim>\<open>.!?\<close> the first alternative matches, greedily: the longest run of such characters,
  then the longest run of \<^verbatim>\<open>.!?\<close> and white space. Where it is one of them neither
  alternative matches and the search moves on by one character, which drops it.
\<close>

definition sentence_head :: "string \<Rightarrow> string" where
  "sentence_head s =
     takeWhile (\<lambda>c. \<not> is_punct c) s
       @ takeWhile (\<lambda>c. is_punct c \<or> is_ws c) (dropWhile (\<lambda>c. \<not> is_punct c) s)"

definition sentence_rest :: "string \<Rightarrow> string" where
  "sentence_rest s = dropWhile (\<lambda>c. is_punct c \<or> is_ws c) (dropWhile (\<lambda>c. \<not> is_punct c) s)"

function sentences :: "string \<Rightarrow> string list" where
  "sentences s =
     (if dropWhile is_punct s = [] then []
      else sentence_head (dropWhile is_punct s) # sentences (sentence_rest (dropWhile is_punct s)))"
  by pat_completeness auto
termination
proof (relation "measure length")
  show "wf (measure length)" by simp
next
  fix s :: string
  assume ne: "dropWhile is_punct s \<noteq> []"
  define t where "t = dropWhile is_punct s"
  from ne have "\<not> is_punct (hd t)" unfolding t_def by (rule hd_dropWhile)
  with ne have "dropWhile (\<lambda>c. \<not> is_punct c) t = dropWhile (\<lambda>c. \<not> is_punct c) (tl t)"
    unfolding t_def by (cases "dropWhile is_punct s") auto
  then have "length (sentence_rest t) \<le> length (tl t)"
    unfolding sentence_rest_def
    by (metis length_dropWhile_le order_trans)
  moreover have "length (tl t) < length t" using ne unfolding t_def by (cases "dropWhile is_punct s") auto
  moreover have "length t \<le> length s" unfolding t_def by (rule length_dropWhile_le)
  ultimately show "(sentence_rest (dropWhile is_punct s), s) \<in> measure length"
    unfolding t_def by simp
qed

function split_ws :: "string \<Rightarrow> string list" where
  \<comment> \<open>\<^verbatim>\<open>s.split(/\s+/)\<close>: the pieces between the runs of white space, the empty piece
      before a leading run and after a trailing one included.\<close>
  "split_ws s =
     (if dropWhile (\<lambda>c. \<not> is_ws c) s = [] then [takeWhile (\<lambda>c. \<not> is_ws c) s]
      else takeWhile (\<lambda>c. \<not> is_ws c) s # split_ws (dropWhile is_ws (dropWhile (\<lambda>c. \<not> is_ws c) s)))"
  by pat_completeness auto
termination
proof (relation "measure length")
  show "wf (measure length)" by simp
next
  fix s :: string
  assume ne: "dropWhile (\<lambda>c. \<not> is_ws c) s \<noteq> []"
  define t where "t = dropWhile (\<lambda>c. \<not> is_ws c) s"
  from ne have "\<not> \<not> is_ws (hd t)" unfolding t_def by (rule hd_dropWhile)
  with ne have "dropWhile is_ws t = dropWhile is_ws (tl t)"
    unfolding t_def by (cases "dropWhile (\<lambda>c. \<not> is_ws c) s") auto
  then have "length (dropWhile is_ws t) \<le> length (tl t)"
    by (metis length_dropWhile_le)
  moreover have "length (tl t) < length t"
    using ne unfolding t_def by (cases "dropWhile (\<lambda>c. \<not> is_ws c) s") auto
  moreover have "length t \<le> length s" unfolding t_def by (rule length_dropWhile_le)
  ultimately show "(dropWhile is_ws (dropWhile (\<lambda>c. \<not> is_ws c) s), s) \<in> measure length"
    unfolding t_def by simp
qed

declare sentences.simps [simp del] split_ws.simps [simp del]

fun pack :: "string list \<Rightarrow> string list \<Rightarrow> string \<Rightarrow> string list \<times> string" where
  \<comment> \<open>The loop over the words of a long sentence: \<^verbatim>\<open>chunks\<close> and \<^verbatim>\<open>currentChunk\<close>.\<close>
  "pack [] chunks currentChunk = (chunks, currentChunk)"
| "pack (word # words) chunks currentChunk =
     (if length currentChunk + length word + 1 > MAX_CHUNK_LENGTH then
        pack words (chunks @ [currentChunk]) word
      else pack words chunks (currentChunk @ (if currentChunk \<noteq> [] then '' '' else []) @ word))"

definition sentence_chunks :: "string \<Rightarrow> string list" where
  \<comment> \<open>What one sentence adds to \<^verbatim>\<open>chunks\<close>.\<close>
  "sentence_chunks sentence =
     (let trimmedSentence = trim sentence
      in if length trimmedSentence = 0 then []
         else if length trimmedSentence > MAX_CHUNK_LENGTH then
           (case pack (split_ws trimmedSentence) [] [] of
              (chunks, currentChunk) \<Rightarrow> if currentChunk \<noteq> [] then chunks @ [currentChunk] else chunks)
         else [trimmedSentence])"

definition tts_chunks :: "string \<Rightarrow> string list" where
  \<comment> \<open>The array \<^verbatim>\<open>chunks\<close> when the loop over the sentences ends.\<close>
  "tts_chunks text = concat (map sentence_chunks (sentences text))"

definition utterances :: "string option \<Rightarrow> string list" where
  \<comment> \<open>The chunks \<^verbatim>\<open>_speak\<close> queues, speech being enabled and supported: none for a text that
      is undefined or blank, and no empty chunk.\<close>
  "utterances text =
     (case text of
        None \<Rightarrow> []
      | Some t \<Rightarrow> if trim t = [] then [] else filter (\<lambda>chunk. chunk \<noteq> []) (tts_chunks t))"

definition js_words :: "string \<Rightarrow> string list" where
  \<comment> \<open>The words of a text: its maximal runs of characters other than white space.\<close>
  "js_words s = filter (\<lambda>w. w \<noteq> []) (split_ws s)"

text \<open>
  Two conditions on a reply text. The first: it does not begin with one of \<^verbatim>\<open>.!?\<close>, and
  each of them is followed by another one, by white space or by the end of the text, so
  that no sentence ends inside a word. The second: no word is longer than a chunk may be.
\<close>

fun punct_then_space :: "string \<Rightarrow> bool" where
  "punct_then_space (c # d # s) = ((\<not> is_punct c \<or> is_punct d \<or> is_ws d) \<and> punct_then_space (d # s))"
| "punct_then_space s = True"

definition sentences_end_at_spaces :: "string \<Rightarrow> bool" where
  "sentences_end_at_spaces s = ((s = [] \<or> \<not> is_punct (hd s)) \<and> punct_then_space s)"

definition words_fit :: "string \<Rightarrow> bool" where
  "words_fit s = list_all (\<lambda>w. length w \<le> MAX_CHUNK_LENGTH) (js_words s)"

section \<open>History import: \<^verbatim>\<open>_handleHistoryUpload\<close>\<close>

text \<open>
  An object is the list of its properties, one entry a key. Reading a property of
  \<^verbatim>\<open>null\<close> throws a TypeError (\<open>Inl\<close>, with the message V8 gives it); of a boolean, a
  number, a string or an array, \<^verbatim>\<open>role\<close> and \<^verbatim>\<open>text\<close> are undefined (\<open>None\<close>).
\<close>

definition get_prop :: "json \<Rightarrow> string \<Rightarrow> string + json option" where
  "get_prop v k =
     (case v of
        JNull \<Rightarrow> Inl (''Cannot read properties of null (reading '' @ [CHR 0x27] @ k @ [CHR 0x27] @ '')'')
      | JObject kvs \<Rightarrow> Inr (map_of kvs k)
      | _ \<Rightarrow> Inr None)"

definition is_valid :: "json \<Rightarrow> string + bool" where
  \<comment> \<open>The predicate of the filter, left to right with its short circuits.\<close>
  "is_valid msg =
     (case get_prop msg ''role'' of
        Inl e \<Rightarrow> Inl e
      | Inr r \<Rightarrow>
          if r = Some (JString ''user'') \<or> r = Some (JString ''model'') then
            (case get_prop msg ''text'' of
               Inl e \<Rightarrow> Inl e
             | Inr t \<Rightarrow> Inr (case t of Some (JString _) \<Rightarrow> True | _ \<Rightarrow> False))
          else Inr False)"

fun filter_valid :: "json list \<Rightarrow> string + json list" where
  \<comment> \<open>\<^verbatim>\<open>loadedData.filter(...)\<close>; an element on which the predicate throws ends it.\<close>
  "filter_valid [] = Inr []"
| "filter_valid (msg # rest) =
     (case is_valid msg of
        Inl e \<Rightarrow> Inl e
      | Inr keep \<Rightarrow>
          (case filter_valid rest of
             Inl e \<Rightarrow> Inl e
           | Inr kept \<Rightarrow> Inr (if keep then msg # kept else kept)))"

definition handleHistoryUpload :: "string + json \<Rightarrow> string option \<Rightarrow> live_chat \<Rightarrow> live_chat" where
  \<comment> \<open>The \<^verbatim>\<open>onload\<close> handler. \<open>parsed\<close> is what \<^verbatim>\<open>JSON.parse\<close> gives for the file: a value,
      or the message of its SyntaxError. \<open>newChat\<close> is how \<^verbatim>\<open>this.client.chats.create\<close>
      ends: \<open>None\<close> when it returns, or the message of the error it throws (a TypeError
      when the component has no client, the API key missing). The handler calls it
      after it has assigned the log, and the chat session that it opens belongs to the
      backend.\<close>
  "handleHistoryUpload parsed newChat s =
     (case parsed of
        Inl e \<Rightarrow> s\<lparr>error := ''Failed to load history: '' @ e\<rparr>
      | Inr (JArray loadedData) \<Rightarrow>
          (case filter_valid loadedData of
             Inl e \<Rightarrow> s\<lparr>error := ''Failed to load history: '' @ e\<rparr>
           | Inr validHistory \<Rightarrow>
               (let s1 = s\<lparr>chatHistory := map Imported validHistory\<rparr>
                in case newChat of
                     None \<Rightarrow> s1\<lparr>error := [], status := ''Chat history loaded successfully.''\<rparr>
                   | Some e \<Rightarrow> s1\<lparr>error := ''Failed to load history: '' @ e\<rparr>))
      | Inr _ \<Rightarrow> s\<lparr>error := ''Failed to load history: Invalid history file format: not an array.''\<rparr>)"

definition conforms :: "json \<Rightarrow> bool" where
  \<comment> \<open>What the specification calls a valid element: a role of \<^verbatim>\<open>user\<close> or \<^verbatim>\<open>model\<close> and a
      string \<^verbatim>\<open>text\<close>. The import is compared with the filter by this predicate.\<close>
  "conforms msg =
     (case msg of
        JObject kvs \<Rightarrow>
          (map_of kvs ''role'' = Some (JString ''user'') \<or> map_of kvs ''role'' = Some (JString ''model''))
          \<and> (case map_of kvs ''text'' of Some (JString _) \<Rightarrow> True | _ \<Rightarrow> False)
      | _ \<Rightarrow> False)"

section \<open>The visualizer: \<^verbatim>\<open>Visual3D\<close>\<close>

text \<open>
  Audio objects by identity. The gain node that the host (the chat component) hands in
  belongs to an audio context of the host. The contexts, sources and analysers that the
  visualizer creates are new objects, numbered in the order of creation, so that a
  context of the visualizer is never a context of the host.
\<close>

datatype audio_context = Host nat | Own nat

record gain_node =
  gain_id :: nat
  gain_context :: nat \<comment> \<open>\<^verbatim>\<open>micInputNode.context\<close> is \<open>Host\<close> of this number\<close>

datatype analyser_node = Analyser nat audio_context \<comment> \<open>its number and its context\<close>

type_synonym video_element = nat

text \<open>The calls of the Web Audio API that the visualizer makes, in order.\<close>

datatype audio_call =
  NewAudioContext audio_context
| AddPlayListener video_element audio_context
| RemovePlayListener video_element audio_context
| CreateMediaElementSource audio_context video_element nat
| CreateAnalyser audio_context analyser_node
| ConnectGain gain_node analyser_node \<comment> \<open>\<^verbatim>\<open>micInputNode.connect(analyser)\<close>\<close>
| ConnectSource nat analyser_node \<comment> \<open>\<^verbatim>\<open>source.connect(analyser)\<close>\<close>
| ConnectDestination analyser_node audio_context
| DisconnectGain gain_node analyser_node \<comment> \<open>\<^verbatim>\<open>micInputNode.disconnect(analyser)\<close>\<close>
| DisconnectSource nat \<comment> \<open>\<^verbatim>\<open>source.disconnect()\<close>\<close>
| DisconnectAnalyser analyser_node \<comment> \<open>\<^verbatim>\<open>analyser.disconnect()\<close>\<close>
| Close audio_context \<comment> \<open>\<^verbatim>\<open>audioContext.close()\<close>\<close>

text \<open>The two closures that \<^verbatim>\<open>sourceCleanup\<close> can hold, with what they captured.\<close>

datatype cleanup =
  MicCleanup gain_node
| VideoCleanup video_element nat audio_context

text \<open>
  The fields of the component that bear on the audio graph; the canvas, the data array
  and the animation frame are left out, the drawing loop calling nothing but
  \<^verbatim>\<open>getByteFrequencyData\<close>.
\<close>

record visual3d =
  inputNode :: "gain_node option"
  videoElement :: "video_element option"
  analyser :: "analyser_node option"
  sourceCleanup :: "cleanup option"
  created :: nat \<comment> \<open>how many objects the visualizer has created\<close>
  audio_calls :: "audio_call list"

definition run_cleanup :: "cleanup \<Rightarrow> visual3d \<Rightarrow> visual3d" where
  \<comment> \<open>Calling a closure. The one of the microphone reads \<^verbatim>\<open>this.analyser\<close> when it is
      called, and ignores the error that \<^verbatim>\<open>disconnect\<close> throws when the two nodes are not
      connected.\<close>
  "run_cleanup c v =
     (case c of
        MicCleanup micInputNode \<Rightarrow>
          (case analyser v of
             Some a \<Rightarrow> v\<lparr>audio_calls := audio_calls v @ [DisconnectGain micInputNode a]\<rparr>
           | None \<Rightarrow> v)
      | VideoCleanup videoEl source audioContext \<Rightarrow>
          v\<lparr>audio_calls := audio_calls v @
              [RemovePlayListener videoEl audioContext, DisconnectSource source] @
              (case analyser v of Some a \<Rightarrow> [DisconnectAnalyser a] | None \<Rightarrow> []) @
              [Close audioContext]\<rparr>)"

definition call_sourceCleanup :: "visual3d \<Rightarrow> visual3d" where
  \<comment> \<open>\<^verbatim>\<open>this.sourceCleanup?.()\<close>\<close>
  "call_sourceCleanup v = (case sourceCleanup v of None \<Rightarrow> v | Some c \<Rightarrow> run_cleanup c v)"

definition setupMicVisualizer :: "gain_node \<Rightarrow> visual3d \<Rightarrow> visual3d" where
  "setupMicVisualizer micInputNode v =
     (let v1 = call_sourceCleanup v;
          audioContext = Host (gain_context micInputNode);
          a = Analyser (created v1) audioContext
      in v1\<lparr>analyser := Some a, created := Suc (created v1),
            audio_calls := audio_calls v1 @ [CreateAnalyser audioContext a, ConnectGain micInputNode a],
            sourceCleanup := Some (MicCleanup micInputNode)\<rparr>)"

text \<open>
  Where the try block of \<^verbatim>\<open>setupVideoVisualizer\<close> may throw: making the context, or
  making the source of an element that already has one.
\<close>

datatype video_setup = SetupWorks | ContextFails | SourceFails

definition setupVideoVisualizer :: "video_element \<Rightarrow> video_setup \<Rightarrow> visual3d \<Rightarrow> visual3d" where
  "setupVideoVisualizer videoEl how v =
     (let v1 = call_sourceCleanup v
      in if how = ContextFails then v1
         else
           (let audioContext = Own (created v1);
                v2 = v1\<lparr>created := Suc (created v1),
                        audio_calls := audio_calls v1 @
                          [NewAudioContext audioContext, AddPlayListener videoEl audioContext]\<rparr>
            in if how = SourceFails then v2
               else
                 (let source = created v2;
                      a = Analyser (Suc (created v2)) audioContext
                  in v2\<lparr>analyser := Some a, created := Suc (Suc (created v2)),
                        audio_calls := audio_calls v2 @
                          [CreateMediaElementSource audioContext videoEl source,
                           CreateAnalyser audioContext a, ConnectSource source a,
                           ConnectDestination a audioContext],
                        sourceCleanup := Some (VideoCleanup videoEl source audioContext)\<rparr>)))"

definition updated :: "bool \<Rightarrow> bool \<Rightarrow> video_setup \<Rightarrow> visual3d \<Rightarrow> visual3d" where
  \<comment> \<open>\<open>changedInput\<close> and \<open>changedVideo\<close>: whether \<^verbatim>\<open>changedProperties\<close> has the key.\<close>
  "updated changedInput changedVideo how v =
     (case videoElement v of
        Some videoEl \<Rightarrow> if changedVideo then setupVideoVisualizer videoEl how v else v
      | None \<Rightarrow>
          (case inputNode v of
             Some micInputNode \<Rightarrow>
               if changedInput \<or> (changedVideo \<and> videoElement v = None)
               then setupMicVisualizer micInputNode v else v
           | None \<Rightarrow> (call_sourceCleanup v)\<lparr>sourceCleanup := None, analyser := None\<rparr>))"

definition disconnectedCallback :: "visual3d \<Rightarrow> visual3d" where
  "disconnectedCallback v = (call_sourceCleanup v)\<lparr>sourceCleanup := None\<rparr>"

text \<open>
  What happens to the component: the host sets the two properties and the framework calls
  \<^verbatim>\<open>updated\<close> with some set of changed keys, or the element leaves the document.
\<close>

datatype visual_event =
  PropertiesSet "gain_node option" "video_element option" bool bool video_setup
| Disconnected

fun visual_step :: "visual_event \<Rightarrow> visual3d \<Rightarrow> visual3d" where
  "visual_step (PropertiesSet micInputNode videoEl changedInput changedVideo how) v =
     updated changedInput changedVideo how (v\<lparr>inputNode := micInputNode, videoElement := videoEl\<rparr>)"
| "visual_step Disconnected v = disconnectedCallback v"

definition visual_initial :: visual3d where
  "visual_initial = \<lparr>inputNode = None, videoElement = None, analyser = None,
     sourceCleanup = None, created = 0, audio_calls = []\<rparr>"

definition visual_run :: "visual_event list \<Rightarrow> visual3d" where
  "visual_run events = fold visual_step events visual_initial"

text \<open>
  What holds of the component after every run: no call has closed a context of the host,
  the closure of a video holds a context of the visualizer, the analyser is one that the
  visualizer created, and while the closure of a microphone is in place the analyser is
  the one that was connected to its gain node.
\<close>

definition visual_inv :: "visual3d \<Rightarrow> bool" where
  "visual_inv v =
     ((\<forall>k. Close (Host k) \<notin> set (audio_calls v)) \<and>
      (\<forall>videoEl source audioContext. sourceCleanup v = Some (VideoCleanup videoEl source audioContext)
          \<longrightarrow> (\<exists>k. audioContext = Own k)) \<and>
      (\<forall>a. analyser v = Some a \<longrightarrow> (\<exists>audioContext. CreateAnalyser audioContext a \<in> set (audio_calls v))) \<and>
      (\<forall>g a. sourceCleanup v = Some (MicCleanup g) \<and> analyser v = Some a
          \<longrightarrow> ConnectGain g a \<in> set (audio_calls v)))"

section \<open>Sample inputs\<close>

text \<open>Concrete inputs at which the theorems below are evaluated.\<close>

definition sample_getId :: "string \<Rightarrow> string option" where
  \<comment> \<open>Stands for \<^verbatim>\<open>getYouTubeVideoId\<close> on the two texts it is applied to.\<close>
  "sample_getId t = (if t = ''https://youtu.be/dQw4w9WgXcQ'' then Some ''dQw4w9WgXcQ'' else None)"

definition sample_reply :: backend where
  "sample_reply n = Inr \<lparr>response_text = Some ''ok'', groundingChunks = []\<rparr>"

definition sample_refusal :: backend where
  "sample_refusal n = Inl ''API key not valid''"

definition sample_env :: send_env where
  "sample_env = \<lparr>readAsDataURL = Inr ''data:text/plain;base64,QUJD'', createObjectURL = ''blob:1'',
     chat_sendMessage = sample_reply, speak_outcome = SpeechReturns\<rparr>"

definition sample_failing_env :: send_env where
  "sample_failing_env = \<lparr>readAsDataURL = Inr ''data:text/plain;base64,QUJD'',
     createObjectURL = ''blob:1'', chat_sendMessage = sample_refusal,
     speak_outcome = SpeechReturns\<rparr>"

definition sample_context_file :: context_file where
  "sample_context_file = \<lparr>uri = ''files/abc'', mimeType = ''application/pdf'',
     displayName = ''notes.pdf'', isUploading = False\<rparr>"

definition sample_video :: file_ref where
  "sample_video = \<lparr>uri = ''files/v'', mimeType = ''video/mp4''\<rparr>"

definition sample_capture :: screen_capture where
  "sample_capture = \<lparr>dataUrl = ''data:image/jpeg;base64,AAAA''\<rparr>"

definition sample_gain :: gain_node where
  "sample_gain = \<lparr>gain_id = 1, gain_context = 0\<rparr>"

definition sample_visual_events :: "visual_event list" where
  \<comment> \<open>The microphone, then a video over it, then the video gone, then the element
      removed.\<close>
  "sample_visual_events =
     [PropertiesSet (Some sample_gain) None True False SetupWorks,
      PropertiesSet (Some sample_gain) (Some 7) False True SetupWorks,
      PropertiesSet (Some sample_gain) None False True SetupWorks,
      Disconnected]"

section \<open>Properties of the dispatcher\<close>

lemma retry_loop_three:
  assumes "chat 0 = Inl m0" "isRateLimit m0 \<or> isServerError m0"
    and "chat (Suc 0) = Inl m1" "isRateLimit m1 \<or> isServerError m1"
    and "chat (Suc (Suc 0)) = Inl m2" "isRateLimit m2 \<or> isServerError m2"
  shows "sendMessageWithRetry chat parts cfg =
      (Inl (final_error (Some m2)),
       [Attempt parts cfg, Status (retry_status m0 1000), Sleep 1000,
        Attempt parts cfg, Status (retry_status m1 2000), Sleep 2000,
        Attempt parts cfg])"
proof -
  have "retry_loop chat parts cfg (Suc (Suc (Suc 0))) 0 1000 None [] =
      (Inl (final_error (Some m2)),
       [Attempt parts cfg, Status (retry_status m0 1000), Sleep 1000,
        Attempt parts cfg, Status (retry_status m1 2000), Sleep 2000,
        Attempt parts cfg])"
    using assms by simp
  then show ?thesis by (simp add: sendMessageWithRetry_def numeral_3_eq_3)
qed

lemma retry_loop_fail_fast:
  assumes "chat 0 = Inl m" "\<not> isRateLimit m" "\<not> isServerError m"
  shows "sendMessageWithRetry chat parts cfg = (Inl m, [Attempt parts cfg])"
  using assms by (simp add: sendMessageWithRetry_def numeral_3_eq_3)

text \<open>
  C1. When each of the first three calls fails with an error of a retried class (rate
  limit or server error), the dispatcher calls the backend exactly three times, sleeps
  1000 ms before the second call and 2000 ms before the third, does not sleep after the
  last, and fails. When the first call fails with an error of any other class, it fails
  with that error after this one call.
\<close>

theorem dispatcher_retry_policy:
  fixes chat :: backend
  shows "((\<forall>n<3. \<exists>m. chat n = Inl m \<and> retriable m) \<longrightarrow>
            isl (fst (sendMessageWithRetry chat parts cfg)) \<and>
            attempts (snd (sendMessageWithRetry chat parts cfg)) = 3 \<and>
            calls_and_sleeps (snd (sendMessageWithRetry chat parts cfg)) =
              [Attempt parts cfg, Sleep 1000, Attempt parts cfg, Sleep 2000, Attempt parts cfg]) \<and>
         (\<forall>m. chat 0 = Inl m \<and> \<not> retriable m \<longrightarrow>
            sendMessageWithRetry chat parts cfg = (Inl m, [Attempt parts cfg]))"
proof -
  have other: "sendMessageWithRetry chat parts cfg = (Inl m, [Attempt parts cfg])"
    if "chat 0 = Inl m \<and> \<not> retriable m" for m
    using that by (simp add: retry_loop_fail_fast retriable_def)
  have retried:
    "isl (fst (sendMessageWithRetry chat parts cfg)) \<and>
     attempts (snd (sendMessageWithRetry chat parts cfg)) = 3 \<and>
     calls_and_sleeps (snd (sendMessageWithRetry chat parts cfg)) =
       [Attempt parts cfg, Sleep 1000, Attempt parts cfg, Sleep 2000, Attempt parts cfg]"
    if all: "\<forall>n<3. \<exists>m. chat n = Inl m \<and> retriable m"
  proof -
    from all have "\<exists>m. chat 0 = Inl m \<and> retriable m" by simp
    then obtain m0 where m0: "chat 0 = Inl m0" "isRateLimit m0 \<or> isServerError m0"
      by (auto simp: retriable_def)
    from all have "\<exists>m. chat (Suc 0) = Inl m \<and> retriable m" by simp
    then obtain m1 where m1: "chat (Suc 0) = Inl m1" "isRateLimit m1 \<or> isServerError m1"
      by (auto simp: retriable_def)
    from all have "\<exists>m. chat (Suc (Suc 0)) = Inl m \<and> retriable m" by simp
    then obtain m2 where m2: "chat (Suc (Suc 0)) = Inl m2" "isRateLimit m2 \<or> isServerError m2"
      by (auto simp: retriable_def)
    note run = retry_loop_three [OF m0 m1 m2, of parts cfg]
    show ?thesis
      by (simp add: run attempts_def calls_and_sleeps_def is_attempt_def is_status_def)
  qed
  from other retried show ?thesis by blast
qed

theorem dispatcher_retry_policy_witness:
  "calls_and_sleeps (snd (sendMessageWithRetry (\<lambda>n. Inl ''429 Too Many Requests'') [Text ''hi''] \<lparr>tools = None\<rparr>)) =
      [Attempt [Text ''hi''] \<lparr>tools = None\<rparr>, Sleep 1000, Attempt [Text ''hi''] \<lparr>tools = None\<rparr>,
       Sleep 2000, Attempt [Text ''hi''] \<lparr>tools = None\<rparr>] \<and>
   attempts (snd (sendMessageWithRetry (\<lambda>n. Inl ''429 Too Many Requests'') [Text ''hi''] \<lparr>tools = None\<rparr>)) = 3 \<and>
   sendMessageWithRetry (\<lambda>n. Inl ''API key not valid'') [Text ''hi''] \<lparr>tools = None\<rparr> =
     (Inl ''API key not valid'', [Attempt [Text ''hi''] \<lparr>tools = None\<rparr>])"
proof -
  have r: "retriable ''429 Too Many Requests''" by code_simp
  have n: "\<not> retriable ''API key not valid''" by code_simp
  show ?thesis
    using dispatcher_retry_policy [of "\<lambda>n. Inl ''429 Too Many Requests''" "[Text ''hi'']" "\<lparr>tools = None\<rparr>"]
      dispatcher_retry_policy [of "\<lambda>n. Inl ''API key not valid''" "[Text ''hi'']" "\<lparr>tools = None\<rparr>"] r n
    by simp
qed

lemma final_error_text:
  "final_error (Some m) =
     (if js_includes (toLowerCase m) ''429'' then ''API rate limit exceeded''
      else ''A server error occurred'')
       @ '' after multiple retries. Please try again later. Original error: '' @ m"
  by (simp add: final_error_def)

text \<open>
  C6. A backend that fails every call with \<^verbatim>\<open>RESOURCE_EXHAUSTED\<close>: the loop classifies
  the error as a rate limit (its status lines say so), and the error raised after the last
  call names a server error.
\<close>

theorem summary_of_resource_exhausted:
  "sendMessageWithRetry (\<lambda>n. Inl ''RESOURCE_EXHAUSTED'') [] \<lparr>tools = None\<rparr> =
     (Inl ''A server error occurred after multiple retries. Please try again later. Original error: RESOURCE_EXHAUSTED'',
      [Attempt [] \<lparr>tools = None\<rparr>, Status ''Rate limit hit. Retrying in 1s...'', Sleep 1000,
       Attempt [] \<lparr>tools = None\<rparr>, Status ''Rate limit hit. Retrying in 2s...'', Sleep 2000,
       Attempt [] \<lparr>tools = None\<rparr>])
   \<and> isRateLimit ''RESOURCE_EXHAUSTED''"
  by code_simp

section \<open>Properties of the send pipeline\<close>

lemma activeContextFiles_flags:
  "activeContextFiles (s\<lparr>isProcessing := p, status := st, error := e\<rparr>) = activeContextFiles s"
  by (simp add: activeContextFiles_def)

lemma contextPrompt_flags:
  "contextPrompt (s\<lparr>isProcessing := p, status := st, error := e\<rparr>) = contextPrompt s"
  by (simp only: contextPrompt_def activeContextFiles_flags)

lemma sendsVideoContext_flags:
  "sendsVideoContext (s\<lparr>isProcessing := p, status := st, error := e\<rparr>) = sendsVideoContext s"
  by (simp add: sendsVideoContext_def)

lemma video_parts_flags:
  "video_parts (s\<lparr>isProcessing := p, status := st, error := e\<rparr>) = video_parts s"
  by (simp add: video_parts_def split: option.splits)

lemma pushed_parts_flags:
  "pushed_parts (s\<lparr>isProcessing := p, status := st, error := e\<rparr>) fileParts = pushed_parts s fileParts"
  by (simp add: pushed_parts_def activeContextFiles_flags video_parts_flags)

lemma apiText_flags:
  "apiText getId (s\<lparr>isProcessing := p, status := st, error := e\<rparr>) promptText parts =
   apiText getId s promptText parts"
  by (simp only: apiText_def sendsVideoContext_flags)

lemma screenCaptures_flags:
  "screenCaptures (s\<lparr>isProcessing := p, status := st, error := e\<rparr>) = screenCaptures s"
  by simp

lemma assemble_ignores_flags:
  "assemble getId (s\<lparr>isProcessing := p, status := st, error := e\<rparr>) promptText attached =
   assemble getId s promptText attached"
  by (simp only: assemble_def pushed_parts_flags activeContextFiles_flags contextPrompt_flags
      apiText_flags sendsVideoContext_flags screenCaptures_flags)

lemma retry_loop_attempts:
  "Attempt ps c \<in> set (snd (retry_loop chat parts cfg r made d le acc)) \<Longrightarrow>
   Attempt ps c \<in> set acc \<or> (ps = parts \<and> c = cfg)"
proof (induction r arbitrary: made d le acc)
  case 0
  then show ?case by simp
next
  case (Suc r)
  show ?case
  proof (cases "chat made")
    case (Inr resp)
    with Suc.prems show ?thesis by auto
  next
    case (Inl m)
    show ?thesis
    proof (cases "isRateLimit m \<or> isServerError m")
      case False
      with Inl Suc.prems show ?thesis by auto
    next
      case True
      show ?thesis
      proof (cases "r > 0")
        case True
        with Suc.prems Inl \<open>isRateLimit m \<or> isServerError m\<close>
        have "Attempt ps c \<in> set (snd (retry_loop chat parts cfg r (Suc made) (d * 2) (Some m)
                (acc @ [Attempt parts cfg, Status (retry_status m d), Sleep d])))"
          by auto
        from Suc.IH [OF this] show ?thesis by auto
      next
        case False
        with Suc.prems Inl \<open>isRateLimit m \<or> isServerError m\<close>
        have "Attempt ps c \<in> set (snd (retry_loop chat parts cfg r (Suc made) d (Some m)
                (acc @ [Attempt parts cfg])))"
          by auto
        from Suc.IH [OF this] show ?thesis by auto
      qed
    qed
  qed
qed

lemma sendMessageWithRetry_attempts:
  "Attempt ps c \<in> set (snd (sendMessageWithRetry chat parts cfg)) \<Longrightarrow> ps = parts \<and> c = cfg"
  using retry_loop_attempts [of ps c chat parts cfg 3 0 1000 None "[]"]
  by (simp add: sendMessageWithRetry_def)

lemma attach_file_None: "(attach_file env file = Inr None) = (file = None)"
  by (simp add: attach_file_def split: option.splits sum.splits)

lemma processPrompt_attempts:
  assumes "Attempt ps c \<in> set (snd (snd (processPrompt getId env promptText file s)))"
  shows "\<exists>attached. attach_file env file = Inr attached \<and>
               ps = a_parts (assemble getId s promptText attached) \<and>
               c = a_config (assemble getId s promptText attached)"
proof (cases "attach_file env file")
  case (Inl e)
  with assms show ?thesis by (simp add: processPrompt_def)
next
  case (Inr attached)
  define a where "a = assemble getId s promptText attached"
  from assms Inr have "Attempt ps c \<in> set (snd (sendMessageWithRetry (chat_sendMessage env) (a_parts a) (a_config a)))"
    by (simp add: processPrompt_def Let_def assemble_ignores_flags a_def
        split: sum.splits option.splits)
  then have "ps = a_parts a \<and> c = a_config a" by (rule sendMessageWithRetry_attempts)
  with Inr show ?thesis by (simp add: a_def)
qed

lemma retry_loop_response:
  "fst (retry_loop chat parts cfg r made d le acc) = Inr response \<Longrightarrow> \<exists>k. chat k = Inr response"
proof (induction r arbitrary: made d le acc)
  case 0
  then show ?case by simp
next
  case (Suc r)
  show ?case
  proof (cases "chat made")
    case (Inr resp)
    with Suc.prems show ?thesis by auto
  next
    case (Inl m)
    show ?thesis
    proof (cases "isRateLimit m \<or> isServerError m")
      case False
      with Inl Suc.prems show ?thesis by auto
    next
      case True
      show ?thesis
      proof (cases "r > 0")
        case True
        with Suc.prems Inl \<open>isRateLimit m \<or> isServerError m\<close>
        have "fst (retry_loop chat parts cfg r (Suc made) (d * 2) (Some m)
                (acc @ [Attempt parts cfg, Status (retry_status m d), Sleep d])) = Inr response"
          by auto
        then show ?thesis by (rule Suc.IH)
      next
        case False
        with Suc.prems Inl \<open>isRateLimit m \<or> isServerError m\<close>
        have "fst (retry_loop chat parts cfg r (Suc made) d (Some m) (acc @ [Attempt parts cfg])) =
            Inr response"
          by auto
        then show ?thesis by (rule Suc.IH)
      qed
    qed
  qed
qed

lemma sendMessageWithRetry_response:
  "fst (sendMessageWithRetry chat parts cfg) = Inr response \<Longrightarrow> \<exists>k. chat k = Inr response"
  unfolding sendMessageWithRetry_def by (rule retry_loop_response)

lemma speak_Some: "speak env t s = Some s6 \<Longrightarrow> \<exists>e. s6 = s\<lparr>error := e\<rparr>"
proof (cases "\<not> isTtsEnabled s \<or> (case t of None \<Rightarrow> True | Some x \<Rightarrow> trim x = [])")
  case True
  assume "speak env t s = Some s6"
  with True have "s6 = s" by (simp add: speak_def)
  then have "s6 = s\<lparr>error := error s\<rparr>" by simp
  then show ?thesis by blast
next
  case False
  assume sp: "speak env t s = Some s6"
  show ?thesis
  proof (cases "speak_outcome env")
    case SpeechReturns
    with sp False have "s6 = s" by (simp add: speak_def)
    then have "s6 = s\<lparr>error := error s\<rparr>" by simp
    then show ?thesis by blast
  next
    case (SpeechFails e)
    with sp False have "s6 = s\<lparr>error := ''Failed to initialize text-to-speech: '' @ e\<rparr>"
      by (simp add: speak_def)
    then show ?thesis by blast
  next
    case SpeechNeverReturns
    with sp False show ?thesis by (simp add: speak_def)
  qed
qed

text \<open>
  The two ways of \<^verbatim>\<open>_processPrompt\<close> past the dispatcher: what the component is when the
  dispatcher has returned a response, whether the call then returns or stays pending.
\<close>

lemma processPrompt_sent:
  assumes "processPrompt getId env promptText file s = (r, s', es)"
    and "r = Returned \<or> r = Pending"
  shows "\<exists>attached response e.
     attach_file env file = Inr attached \<and>
     (\<exists>k. chat_sendMessage env k = Inr response) \<and>
     (s' = finally_block
             ((on_success (assemble getId s promptText attached) response
                 (s\<lparr>isProcessing := True, status := ''Thinking...'', error := [],
                    chatHistory := chatHistory s @
                      [Built (a_userMessage (assemble getId s promptText attached))]\<rparr>))
              \<lparr>error := e\<rparr>) \<or>
      s' = on_success (assemble getId s promptText attached) response
             (s\<lparr>isProcessing := True, status := ''Thinking...'', error := [],
                chatHistory := chatHistory s @
                  [Built (a_userMessage (assemble getId s promptText attached))]\<rparr>))"
proof -
  define s1 where "s1 = s\<lparr>isProcessing := True, status := ''Thinking...'', error := []\<rparr>"
  from assms obtain attached where att: "attach_file env file = Inr attached"
    by (cases "attach_file env file") (auto simp: processPrompt_def)
  define a where "a = assemble getId s1 promptText attached"
  define s2 where "s2 = s1\<lparr>chatHistory := chatHistory s1 @ [Built (a_userMessage a)]\<rparr>"
  define sent where "sent = sendMessageWithRetry (chat_sendMessage env) (a_parts a) (a_config a)"
  have pp: "processPrompt getId env promptText file s =
      (case fst sent of
         Inr response \<Rightarrow>
           (case speak env (response_text response) (on_success a response s2) of
              Some s6 \<Rightarrow> (Returned, finally_block s6, snd sent)
            | None \<Rightarrow> (Pending, on_success a response s2, snd sent))
       | Inl e \<Rightarrow> (Threw e, finally_block (on_failure e s2), snd sent))"
    unfolding processPrompt_def Let_def att s1_def a_def s2_def sent_def
    by (simp only: sum.case)
  from assms pp obtain response where resp: "fst sent = Inr response"
    by (cases "fst sent") auto
  then have k: "\<exists>k. chat_sendMessage env k = Inr response"
    unfolding sent_def by (rule sendMessageWithRetry_response)
  have a': "a = assemble getId s promptText attached"
    by (simp add: a_def s1_def assemble_ignores_flags)
  have s2': "s2 = s\<lparr>isProcessing := True, status := ''Thinking...'', error := [],
      chatHistory := chatHistory s @ [Built (a_userMessage a)]\<rparr>"
    by (simp add: s2_def s1_def)
  have ends: "(\<exists>e. s' = finally_block ((on_success a response s2)\<lparr>error := e\<rparr>)) \<or>
      s' = on_success a response s2"
  proof (cases "speak env (response_text response) (on_success a response s2)")
    case None
    with assms(1) pp resp show ?thesis by simp
  next
    case (Some s6)
    from speak_Some [OF Some] obtain e where "s6 = (on_success a response s2)\<lparr>error := e\<rparr>" by blast
    with assms(1) pp resp Some show ?thesis by auto
  qed
  from ends [unfolded s2' a'] att k show ?thesis by blast
qed

lemma on_success_fields:
  "chatHistory (on_success a response s) =
     chatHistory s @
       [Built \<lparr>role = Model, content_text = response_text response,
          content_file = None, grounding = Some (groundingChunks response),
          youtubeVideoId = None, content_screenCaptures = [], contextFilesUsed = []\<rparr>]"
  "isVideoContextSent (on_success a response s) = (isVideoContextSent s \<or> a_sentVideoContext a)"
  "promptFile (on_success a response s) = None"
  "screenCaptures (on_success a response s) = []"
  "textInputValue (on_success a response s) = textInputValue s"
  by (simp_all add: on_success_def Let_def clearFile_def clearScreenCaptures_def)

lemma processPrompt_success:
  assumes "processPrompt getId env promptText file s = (r, s', es)"
    and "r = Returned \<or> r = Pending"
  shows "\<exists>u m response k. chatHistory s' = chatHistory s @ [Built u, Built m] \<and>
      role u = User \<and> content_text u = Some promptText \<and>
      role m = Model \<and> chat_sendMessage env k = Inr response \<and>
      content_text m = response_text response \<and> grounding m = Some (groundingChunks response)"
    and "isVideoContextSent s' = (isVideoContextSent s \<or> sendsVideoContext s)"
    and "promptFile s' = None" and "screenCaptures s' = []"
    and "textInputValue s' = textInputValue s"
proof -
  from processPrompt_sent [OF assms] obtain attached response e k where
    k: "chat_sendMessage env k = Inr response" and
    ends: "s' = finally_block
             ((on_success (assemble getId s promptText attached) response
                 (s\<lparr>isProcessing := True, status := ''Thinking...'', error := [],
                    chatHistory := chatHistory s @
                      [Built (a_userMessage (assemble getId s promptText attached))]\<rparr>))
              \<lparr>error := e\<rparr>) \<or>
      s' = on_success (assemble getId s promptText attached) response
             (s\<lparr>isProcessing := True, status := ''Thinking...'', error := [],
                chatHistory := chatHistory s @
                  [Built (a_userMessage (assemble getId s promptText attached))]\<rparr>)"
    by blast
  define a where "a = assemble getId s promptText attached"
  define s2 where "s2 = s\<lparr>isProcessing := True, status := ''Thinking...'', error := [],
      chatHistory := chatHistory s @ [Built (a_userMessage a)]\<rparr>"
  define T where "T = on_success a response s2"
  from ends have s': "s' = finally_block (T\<lparr>error := e\<rparr>) \<or> s' = T"
    by (simp only: T_def s2_def a_def)
  then have same: "chatHistory s' = chatHistory T" "isVideoContextSent s' = isVideoContextSent T"
    "promptFile s' = promptFile T" "screenCaptures s' = screenCaptures T"
    "textInputValue s' = textInputValue T"
    by (auto simp: finally_block_def)
  have um: "role (a_userMessage a) = User" "content_text (a_userMessage a) = Some promptText"
    by (simp_all add: a_def assemble_def Let_def)
  have sv: "a_sentVideoContext a = sendsVideoContext s"
    by (simp add: a_def assemble_def Let_def)
  define m where "m = \<lparr>role = Model, content_text = response_text response,
      content_file = None, grounding = Some (groundingChunks response),
      youtubeVideoId = None, content_screenCaptures = [], contextFilesUsed = []\<rparr>"
  have log: "chatHistory s' = chatHistory s @ [Built (a_userMessage a), Built m]"
    by (simp add: same T_def on_success_fields s2_def m_def)
  have "role m = Model" "content_text m = response_text response"
    "grounding m = Some (groundingChunks response)"
    by (simp_all add: m_def)
  with log um k
  show "\<exists>u m response k. chatHistory s' = chatHistory s @ [Built u, Built m] \<and>
      role u = User \<and> content_text u = Some promptText \<and>
      role m = Model \<and> chat_sendMessage env k = Inr response \<and>
      content_text m = response_text response \<and> grounding m = Some (groundingChunks response)"
    by blast
  show "isVideoContextSent s' = (isVideoContextSent s \<or> sendsVideoContext s)"
    by (simp add: same T_def on_success_fields s2_def sv)
  show "promptFile s' = None" "screenCaptures s' = []" "textInputValue s' = textInputValue s"
    by (simp_all add: same T_def on_success_fields s2_def)
qed

lemma processPrompt_failure:
  assumes "processPrompt getId env promptText file s = (Threw e, s', es)"
  shows "chatHistory s' = chatHistory s \<and> textInputValue s' = textInputValue s \<and>
     promptFile s' = promptFile s \<and> screenCaptures s' = screenCaptures s \<and>
     isVideoContextSent s' = isVideoContextSent s \<and>
     contextFiles s' = contextFiles s \<and> videoContextFile s' = videoContextFile s"
proof (cases "attach_file env file")
  case (Inl e')
  with assms have "s' = file_failed e' (s\<lparr>isProcessing := True, status := ''Thinking...'', error := []\<rparr>)"
    by (auto simp: processPrompt_def)
  then show ?thesis by (simp add: file_failed_def)
next
  case (Inr attached)
  define s1 where "s1 = s\<lparr>isProcessing := True, status := ''Thinking...'', error := []\<rparr>"
  define a where "a = assemble getId s1 promptText attached"
  define s2 where "s2 = s1\<lparr>chatHistory := chatHistory s1 @ [Built (a_userMessage a)]\<rparr>"
  from assms Inr obtain e' where s': "s' = finally_block (on_failure e' s2)"
    by (auto simp: processPrompt_def Let_def s1_def a_def s2_def split: sum.splits option.splits)
  show ?thesis
    by (simp add: s' finally_block_def on_failure_def Let_def s2_def s1_def)
qed

lemma all_dropWhile: "(\<forall>x\<in>set (dropWhile P s). P x) = (\<forall>x\<in>set s. P x)"
  by (induction s) auto

lemma trim_Nil_iff: "(trim s = []) = (\<forall>c\<in>set s. is_ws c)"
  by (simp add: trim_def dropWhile_eq_Nil_conv all_dropWhile)

text \<open>
  C10. A send with a blank text input, no attached file and no screen capture returns at
  once: the component is unchanged and no effect takes place, whatever context files and
  video context are present.
\<close>

theorem empty_send_is_noop:
  assumes "trim (textInputValue s) = []" and "promptFile s = None" and "screenCaptures s = []"
  shows "sendMessage getId env s = (NotSent, s, [])"
  using assms by (simp add: sendMessage_def)

theorem empty_send_is_noop_witness:
  "sendMessage sample_getId sample_env
     (initial\<lparr>textInputValue := ''  '', contextFiles := [sample_context_file],
        videoContextFile := Some sample_video\<rparr>) =
   (NotSent,
    initial\<lparr>textInputValue := ''  '', contextFiles := [sample_context_file],
      videoContextFile := Some sample_video\<rparr>, [])"
proof -
  have "trim ''  '' = []" by (simp add: trim_def is_ws_def)
  then show ?thesis
    using empty_send_is_noop [of "initial\<lparr>textInputValue := ''  '',
      contextFiles := [sample_context_file], videoContextFile := Some sample_video\<rparr>"
      sample_getId sample_env]
    by (simp add: initial_def)
qed

lemma sendMessage_cases:
  assumes "sendMessage getId env s = (out, s', es)" and "out \<noteq> NotSent"
  shows "\<exists>r s''. processPrompt getId env (trim (textInputValue s)) (promptFile s) s = (r, s'', es) \<and>
     (case r of
        Returned \<Rightarrow> out = Succeeded \<and> s' = s''\<lparr>textInputValue := []\<rparr>
      | Threw e \<Rightarrow> out = Failed \<and> s' = s''
      | Pending \<Rightarrow> out = InFlight \<and> s' = s'')"
proof -
  let ?p = "processPrompt getId env (trim (textInputValue s)) (promptFile s) s"
  obtain r s'' es' where p: "?p = (r, s'', es')" by (cases ?p) auto
  have "\<not> (trim (textInputValue s) = [] \<and> promptFile s = None \<and> length (screenCaptures s) = 0)"
    using assms by (auto simp: sendMessage_def Let_def)
  then have "sendMessage getId env s =
      (case ?p of
         (Returned, s', effects) \<Rightarrow> (Succeeded, s'\<lparr>textInputValue := []\<rparr>, effects)
       | (Threw e, s', effects) \<Rightarrow> (Failed, s', effects)
       | (Pending, s', effects) \<Rightarrow> (InFlight, s', effects))"
    unfolding sendMessage_def Let_def by (simp only: if_False)
  with assms(1) p show ?thesis by (cases r) auto
qed

lemma sendMessage_Failed:
  assumes "sendMessage getId env s = (Failed, s', es)"
  shows "chatHistory s' = chatHistory s \<and> textInputValue s' = textInputValue s \<and>
     promptFile s' = promptFile s \<and> screenCaptures s' = screenCaptures s \<and>
     isVideoContextSent s' = isVideoContextSent s"
proof -
  from sendMessage_cases [OF assms] obtain r s'' where
    p: "processPrompt getId env (trim (textInputValue s)) (promptFile s) s = (r, s'', es)" and
    r: "case r of Returned \<Rightarrow> Failed = Succeeded \<and> s' = s''\<lparr>textInputValue := []\<rparr>
        | Threw e \<Rightarrow> Failed = Failed \<and> s' = s'' | Pending \<Rightarrow> Failed = InFlight \<and> s' = s''"
    by auto
  from r obtain e where "r = Threw e" "s' = s''" by (cases r) auto
  with p processPrompt_failure [of getId env "trim (textInputValue s)" "promptFile s" s e s' es]
  show ?thesis by simp
qed

lemma sendMessage_sent:
  assumes "sendMessage getId env s = (out, s', es)" and "out = Succeeded \<or> out = InFlight"
  shows "\<exists>u m response k. chatHistory s' = chatHistory s @ [Built u, Built m] \<and>
      role u = User \<and> content_text u = Some (trim (textInputValue s)) \<and>
      role m = Model \<and> chat_sendMessage env k = Inr response \<and>
      content_text m = response_text response \<and> grounding m = Some (groundingChunks response)"
proof -
  from assms(2) have "out \<noteq> NotSent" by auto
  from sendMessage_cases [OF assms(1) this] obtain r s'' where
    p: "processPrompt getId env (trim (textInputValue s)) (promptFile s) s = (r, s'', es)" and
    r: "case r of Returned \<Rightarrow> out = Succeeded \<and> s' = s''\<lparr>textInputValue := []\<rparr>
        | Threw e \<Rightarrow> out = Failed \<and> s' = s'' | Pending \<Rightarrow> out = InFlight \<and> s' = s''"
    by auto
  from r assms(2) have rr: "r = Returned \<or> r = Pending" by (cases r) auto
  from r have "chatHistory s' = chatHistory s''" by (cases r) auto
  with processPrompt_success(1) [OF p rr] show ?thesis by simp
qed

lemma sendMessage_NotSent:
  assumes "sendMessage getId env s = (NotSent, s', es)"
  shows "s' = s"
proof (cases "trim (textInputValue s) = [] \<and> promptFile s = None \<and> length (screenCaptures s) = 0")
  case True
  with assms show ?thesis by (simp add: sendMessage_def)
next
  case False
  obtain r s'' es' where
    p: "processPrompt getId env (trim (textInputValue s)) (promptFile s) s = (r, s'', es')"
    by (cases "processPrompt getId env (trim (textInputValue s)) (promptFile s) s") auto
  from False have "sendMessage getId env s =
      (case processPrompt getId env (trim (textInputValue s)) (promptFile s) s of
         (Returned, s', effects) \<Rightarrow> (Succeeded, s'\<lparr>textInputValue := []\<rparr>, effects)
       | (Threw e, s', effects) \<Rightarrow> (Failed, s', effects)
       | (Pending, s', effects) \<Rightarrow> (InFlight, s', effects))"
    unfolding sendMessage_def Let_def by (simp only: if_False)
  with assms p show ?thesis by (cases r) auto
qed

text \<open>The roles of a log of \<open>n\<close> exchanges: a user entry and a model entry, \<open>n\<close> times.\<close>

lemma exchanges_Suc:
  "concat (replicate n [Some User, Some Model]) @ [Some User, Some Model] =
   concat (replicate (Suc n) [Some User, Some Model])"
  by (induction n) simp_all

lemma step_log:
  assumes "step getId ev (s, t) = (s', t')"
    and "map entry_role (chatHistory s) =
      concat (replicate (successes t + in_flight t) [Some User, Some Model])"
  shows "map entry_role (chatHistory s') =
      concat (replicate (successes t' + in_flight t') [Some User, Some Model])"
proof (cases ev)
  case (Send env)
  obtain out s1 es where sm: "sendMessage getId env s = (out, s1, es)"
    by (cases "sendMessage getId env s") auto
  show ?thesis
  proof (cases out)
    case NotSent
    with sm assms Send sendMessage_NotSent [of getId env s s1 es] show ?thesis by auto
  next
    case Succeeded
    with sendMessage_sent [OF sm] obtain u m where
      "chatHistory s1 = chatHistory s @ [Built u, Built m]" "role u = User" "role m = Model"
      by blast
    then have "map entry_role (chatHistory s1) =
        map entry_role (chatHistory s) @ [Some User, Some Model]"
      by (simp add: entry_role_def)
    with assms(2) have "map entry_role (chatHistory s1) =
        concat (replicate (Suc (successes t + in_flight t)) [Some User, Some Model])"
      by (simp only: exchanges_Suc)
    with sm assms(1) Send Succeeded show ?thesis by auto
  next
    case Failed
    with sm assms Send sendMessage_Failed [of getId env s s1 es] show ?thesis by auto
  next
    case InFlight
    with sendMessage_sent [OF sm] obtain u m where
      "chatHistory s1 = chatHistory s @ [Built u, Built m]" "role u = User" "role m = Model"
      by blast
    then have "map entry_role (chatHistory s1) =
        map entry_role (chatHistory s) @ [Some User, Some Model]"
      by (simp add: entry_role_def)
    with assms(2) have "map entry_role (chatHistory s1) =
        concat (replicate (Suc (successes t + in_flight t)) [Some User, Some Model])"
      by (simp only: exchanges_Suc)
    with sm assms(1) Send InFlight show ?thesis by auto
  qed
qed (use assms in auto)

lemma run_log:
  assumes "map entry_role (chatHistory (fst st)) =
      concat (replicate (successes (snd st) + in_flight (snd st)) [Some User, Some Model])"
  shows "map entry_role (chatHistory (fst (run getId events st))) =
      concat (replicate (successes (snd (run getId events st)) + in_flight (snd (run getId events st)))
        [Some User, Some Model])"
  using assms
proof (induction events arbitrary: st)
  case Nil
  then show ?case by (simp add: run_def)
next
  case (Cons ev events)
  obtain s t where st: "st = (s, t)" by (cases st)
  obtain s' t' where stp: "step getId ev (s, t) = (s', t')" by (cases "step getId ev (s, t)")
  have r: "run getId (ev # events) st = run getId events (s', t')"
    by (simp add: run_def st stp)
  from Cons.prems st have "map entry_role (chatHistory s) =
      concat (replicate (successes t + in_flight t) [Some User, Some Model])"
    by simp
  from step_log [OF stp this] have "map entry_role (chatHistory (fst (s', t'))) =
      concat (replicate (successes (snd (s', t')) + in_flight (snd (s', t'))) [Some User, Some Model])"
    by simp
  then show ?case unfolding r by (rule Cons.IH)
qed

lemma length_exchanges: "length (concat (replicate n [a, b])) = 2 * n"
  by (induction n) simp_all

text \<open>
  C2. A send that succeeds appends to the log a user entry with the trimmed text and,
  after it, a model entry with the text and the sources of a response of the backend. A
  send that fails leaves the log as it was, with no entry of its own, and leaves the text
  input, the attached file, the screen captures and the video-context-sent flag as they
  were. So in every session of edits and sends that starts with an empty log, the log is
  a user entry and a model entry for each send that the backend has answered, in this
  order; when no send is left in flight, these are the sends that have succeeded, and the
  log has twice as many entries as sends have succeeded, however many have failed.
\<close>

theorem log_counts_confirmed_exchanges:
  "(chatHistory s = [] \<longrightarrow>
      map entry_role (chatHistory (fst (run getId events (s, no_sends)))) =
        concat (replicate (successes (snd (run getId events (s, no_sends))) +
                           in_flight (snd (run getId events (s, no_sends))))
          [Some User, Some Model]) \<and>
      (in_flight (snd (run getId events (s, no_sends))) = 0 \<longrightarrow>
         length (chatHistory (fst (run getId events (s, no_sends)))) =
           2 * successes (snd (run getId events (s, no_sends))))) \<and>
   (sendMessage getId env s = (Succeeded, s', es) \<longrightarrow>
      (\<exists>u m response k. chatHistory s' = chatHistory s @ [Built u, Built m] \<and>
         role u = User \<and> content_text u = Some (trim (textInputValue s)) \<and>
         role m = Model \<and> chat_sendMessage env k = Inr response \<and>
         content_text m = response_text response \<and>
         grounding m = Some (groundingChunks response))) \<and>
   (sendMessage getId env s = (Failed, s', es) \<longrightarrow>
      chatHistory s' = chatHistory s \<and> textInputValue s' = textInputValue s \<and>
      promptFile s' = promptFile s \<and> screenCaptures s' = screenCaptures s \<and>
      isVideoContextSent s' = isVideoContextSent s)"
proof -
  let ?R = "run getId events (s, no_sends)"
  have roles: "map entry_role (chatHistory (fst ?R)) =
      concat (replicate (successes (snd ?R) + in_flight (snd ?R)) [Some User, Some Model])"
    if "chatHistory s = []"
  proof -
    from that have "map entry_role (chatHistory (fst (s, no_sends))) =
        concat (replicate (successes (snd (s, no_sends)) + in_flight (snd (s, no_sends)))
          [Some User, Some Model])"
      by (simp add: no_sends_def)
    then show ?thesis by (rule run_log)
  qed
  have count: "length (chatHistory (fst ?R)) = 2 * successes (snd ?R)"
    if "chatHistory s = []" "in_flight (snd ?R) = 0"
  proof -
    have "length (chatHistory (fst ?R)) = length (map entry_role (chatHistory (fst ?R)))" by simp
    also have "\<dots> = 2 * (successes (snd ?R) + in_flight (snd ?R))"
      unfolding roles [OF that(1)] by (rule length_exchanges)
    finally show ?thesis using that(2) by simp
  qed
  have sent: "\<exists>u m response k. chatHistory s' = chatHistory s @ [Built u, Built m] \<and>
         role u = User \<and> content_text u = Some (trim (textInputValue s)) \<and>
         role m = Model \<and> chat_sendMessage env k = Inr response \<and>
         content_text m = response_text response \<and>
         grounding m = Some (groundingChunks response)"
    if "sendMessage getId env s = (Succeeded, s', es)"
    using that by (rule sendMessage_sent) simp
  from roles count sent sendMessage_Failed [of getId env s s' es] show ?thesis by blast
qed

theorem log_counts_confirmed_exchanges_witness:
  "map entry_role (chatHistory (fst (run sample_getId
      [SetTextInput ''hi'', Send sample_failing_env, Send sample_env, SetTextInput ''again'',
       Send sample_failing_env] (initial, no_sends)))) = [Some User, Some Model] \<and>
   snd (run sample_getId
      [SetTextInput ''hi'', Send sample_failing_env, Send sample_env, SetTextInput ''again'',
       Send sample_failing_env] (initial, no_sends)) =
     \<lparr>successes = 1, failures = 2, in_flight = 0\<rparr> \<and>
   fst (sendMessage sample_getId sample_failing_env (initial\<lparr>textInputValue := ''hi''\<rparr>)) = Failed \<and>
   textInputValue (fst (snd (sendMessage sample_getId sample_failing_env
      (initial\<lparr>textInputValue := ''hi''\<rparr>)))) = ''hi'' \<and>
   chatHistory (fst (snd (sendMessage sample_getId sample_failing_env
      (initial\<lparr>textInputValue := ''hi''\<rparr>)))) = [] \<and>
   fst (sendMessage sample_getId sample_env (initial\<lparr>textInputValue := ''hi''\<rparr>)) = Succeeded \<and>
   map entry_role (chatHistory (fst (snd (sendMessage sample_getId sample_env
      (initial\<lparr>textInputValue := ''hi''\<rparr>))))) = [Some User, Some Model]"
proof -
  let ?evs = "[SetTextInput ''hi'', Send sample_failing_env, Send sample_env, SetTextInput ''again'',
       Send sample_failing_env]"
  let ?s = "initial\<lparr>textInputValue := ''hi''\<rparr>"
  let ?r = "sendMessage sample_getId sample_failing_env ?s"
  let ?ok = "sendMessage sample_getId sample_env ?s"
  have tally: "snd (run sample_getId ?evs (initial, no_sends)) =
      \<lparr>successes = 1, failures = 2, in_flight = 0\<rparr>"
    by code_simp
  have failed: "fst ?r = Failed" by code_simp
  then have r: "?r = (Failed, fst (snd ?r), snd (snd ?r))"
    by (metis prod.collapse)
  have succeeded: "fst ?ok = Succeeded" by code_simp
  then have ok: "?ok = (Succeeded, fst (snd ?ok), snd (snd ?ok))"
    by (metis prod.collapse)
  have empty: "chatHistory initial = []" "chatHistory ?s = []" "textInputValue ?s = ''hi''"
    by (simp_all add: initial_def)
  note inst = log_counts_confirmed_exchanges [of initial sample_getId ?evs]
  from inst empty(1) tally
  have roles: "map entry_role (chatHistory (fst (run sample_getId ?evs (initial, no_sends)))) =
      [Some User, Some Model]"
    by simp
  from log_counts_confirmed_exchanges [of ?s sample_getId "[]" sample_failing_env "fst (snd ?r)" "snd (snd ?r)"] r
  have "chatHistory (fst (snd ?r)) = chatHistory ?s \<and> textInputValue (fst (snd ?r)) = textInputValue ?s"
    by blast
  with empty have kept: "chatHistory (fst (snd ?r)) = []" "textInputValue (fst (snd ?r)) = ''hi''"
    by simp_all
  from log_counts_confirmed_exchanges [of ?s sample_getId "[]" sample_env "fst (snd ?ok)" "snd (snd ?ok)"] ok
  obtain u m where "chatHistory (fst (snd ?ok)) = chatHistory ?s @ [Built u, Built m]"
    "role u = User" "role m = Model"
    by blast
  with empty have pair: "map entry_role (chatHistory (fst (snd ?ok))) = [Some User, Some Model]"
    by (simp add: entry_role_def)
  from roles tally failed kept succeeded pair show ?thesis by blast
qed

section \<open>Properties of the assembled request\<close>

lemma video_parts_Nil: "(video_parts s = []) = (\<not> sendsVideoContext s)"
  by (simp add: video_parts_def sendsVideoContext_def split: option.splits)

lemma append4_eq_second: "(xs @ ys @ zs @ ws = ys) = (xs = [] \<and> zs = [] \<and> ws = [])"
proof
  assume "xs @ ys @ zs @ ws = ys"
  then have "length (xs @ ys @ zs @ ws) = length ys" by simp
  then show "xs = [] \<and> zs = [] \<and> ws = []" by simp
qed simp

lemma a_parts_assemble:
  "a_parts (assemble getId s promptText attached) =
     Text (contextPrompt s @ apiText getId s promptText
             (pushed_parts s (case attached of None \<Rightarrow> [] | Some (p, _) \<Rightarrow> [p])))
       # pushed_parts s (case attached of None \<Rightarrow> [] | Some (p, _) \<Rightarrow> [p])"
  by (simp add: assemble_def Let_def)

lemma a_useSearch_assemble:
  "a_useSearch (assemble getId s promptText attached) =
     (\<not> truthy (getId promptText) \<and> screenCaptures s = [] \<and> attached = None \<and>
      \<not> sendsVideoContext s)"
proof -
  have "(case attached of None \<Rightarrow> [] | Some (p, _) \<Rightarrow> [p]) = [] \<longleftrightarrow> attached = None"
    by (simp split: option.splits prod.splits)
  moreover have "length (video_parts s) = 0 \<longleftrightarrow> \<not> sendsVideoContext s"
    using video_parts_Nil [of s] by simp
  ultimately show ?thesis
    by (auto simp: assemble_def Let_def pushed_parts_def)
qed

lemma a_config_assemble:
  "tools (a_config (assemble getId s promptText attached)) =
     (if a_useSearch (assemble getId s promptText attached) then Some [GoogleSearch] else None)"
  by (simp add: assemble_def Let_def)

lemma pushed_parts_only_context:
  "(pushed_parts s (case attached of None \<Rightarrow> [] | Some (p, _) \<Rightarrow> [p]) =
      map context_part (activeContextFiles s)) =
   (screenCaptures s = [] \<and> attached = None \<and> \<not> sendsVideoContext s)"
proof -
  have "(case attached of None \<Rightarrow> [] | Some (p, _) \<Rightarrow> [p]) = [] \<longleftrightarrow> attached = None"
    by (simp split: option.splits prod.splits)
  then show ?thesis
    unfolding pushed_parts_def append4_eq_second video_parts_Nil by auto
qed

text \<open>
  C3. The assembled request asks for web search (the config carries the googleSearch
  tool) exactly when no YouTube id was extracted from the text and the parts after the
  text part are the parts of the ready context files and nothing else: no screen capture,
  no attached file, no video context. For the text \<^verbatim>\<open>hi\<close> with one ready context file
  and nothing else, the prompt is the instruction naming the file followed by the text,
  and search is requested.
\<close>

theorem search_only_with_context_files:
  "(a_useSearch (assemble getId s promptText attached) =
      (\<not> truthy (getId promptText) \<and>
       tl (a_parts (assemble getId s promptText attached)) = map context_part (activeContextFiles s))) \<and>
   (tl (a_parts (assemble getId s promptText attached)) = map context_part (activeContextFiles s)) =
      (screenCaptures s = [] \<and> attached = None \<and> \<not> sendsVideoContext s) \<and>
   tools (a_config (assemble getId s promptText attached)) =
      (if a_useSearch (assemble getId s promptText attached) then Some [GoogleSearch] else None) \<and>
   (\<not> truthy (getId ''hi'') \<and> activeContextFiles s = [f] \<and> screenCaptures s = [] \<and>
    \<not> sendsVideoContext s \<longrightarrow>
      a_parts (assemble getId s ''hi'' None) =
        [Text (''Using the provided file(s) ('' @ displayName f @ '') as context, hi''),
         FileData (mimeType f) (uri f)] \<and>
      tools (a_config (assemble getId s ''hi'' None)) = Some [GoogleSearch])"
proof -
  have tl_parts: "tl (a_parts (assemble getId s promptText attached)) =
      pushed_parts s (case attached of None \<Rightarrow> [] | Some (p, _) \<Rightarrow> [p])"
    by (simp add: a_parts_assemble)
  have one: "a_useSearch (assemble getId s promptText attached) =
      (\<not> truthy (getId promptText) \<and>
       tl (a_parts (assemble getId s promptText attached)) = map context_part (activeContextFiles s))"
    unfolding tl_parts pushed_parts_only_context a_useSearch_assemble by simp
  have two: "(tl (a_parts (assemble getId s promptText attached)) = map context_part (activeContextFiles s)) =
      (screenCaptures s = [] \<and> attached = None \<and> \<not> sendsVideoContext s)"
    unfolding tl_parts by (rule pushed_parts_only_context)
  have three: "a_parts (assemble getId s ''hi'' None) =
        [Text (''Using the provided file(s) ('' @ displayName f @ '') as context, hi''),
         FileData (mimeType f) (uri f)] \<and>
      tools (a_config (assemble getId s ''hi'' None)) = Some [GoogleSearch]"
    if h: "\<not> truthy (getId ''hi'') \<and> activeContextFiles s = [f] \<and> screenCaptures s = [] \<and>
        \<not> sendsVideoContext s"
  proof -
    from h have pp: "pushed_parts s [] = [FileData (mimeType f) (uri f)]"
      using video_parts_Nil [of s] by (simp add: pushed_parts_def context_part_def)
    have tr: "trim ''hi'' \<noteq> []" by (simp add: trim_def is_ws_def)
    from h tr have at: "apiText getId s ''hi'' [FileData (mimeType f) (uri f)] = ''hi''"
      by (simp add: apiText_def Let_def)
    from h have cp: "contextPrompt s = ''Using the provided file(s) ('' @ displayName f @ '') as context, ''"
      by (simp add: contextPrompt_def)
    from h have us: "a_useSearch (assemble getId s ''hi'' None)"
      by (simp add: a_useSearch_assemble)
    show ?thesis
      using pp at cp us by (simp add: a_parts_assemble a_config_assemble)
  qed
  from one two three a_config_assemble [of getId s promptText attached] show ?thesis by blast
qed

theorem search_only_with_context_files_witness:
  "a_parts (assemble sample_getId (initial\<lparr>contextFiles := [sample_context_file]\<rparr>) ''hi'' None) =
     [Text ''Using the provided file(s) (notes.pdf) as context, hi'',
      FileData ''application/pdf'' ''files/abc''] \<and>
   tools (a_config (assemble sample_getId (initial\<lparr>contextFiles := [sample_context_file]\<rparr>) ''hi'' None)) =
     Some [GoogleSearch]"
proof -
  let ?s = "initial\<lparr>contextFiles := [sample_context_file]\<rparr>"
  have h: "\<not> truthy (sample_getId ''hi'')" "activeContextFiles ?s = [sample_context_file]"
    "screenCaptures ?s = []" "\<not> sendsVideoContext ?s"
    by (simp_all add: truthy_def sample_getId_def activeContextFiles_def initial_def
        sample_context_file_def sendsVideoContext_def)
  have d: "displayName sample_context_file = ''notes.pdf''"
    "mimeType sample_context_file = ''application/pdf''" "uri sample_context_file = ''files/abc''"
    by (simp_all add: sample_context_file_def)
  from search_only_with_context_files [of sample_getId ?s "''hi''" None sample_context_file] h
  have "a_parts (assemble sample_getId ?s ''hi'' None) =
        [Text (''Using the provided file(s) ('' @ displayName sample_context_file @ '') as context, hi''),
         FileData (mimeType sample_context_file) (uri sample_context_file)] \<and>
      tools (a_config (assemble sample_getId ?s ''hi'' None)) = Some [GoogleSearch]"
    by blast
  then show ?thesis by (simp add: d)
qed

lemma sendMessage_effects:
  "snd (snd (sendMessage getId env s)) = [] \<or>
   snd (snd (sendMessage getId env s)) =
     snd (snd (processPrompt getId env (trim (textInputValue s)) (promptFile s) s))"
proof (cases "trim (textInputValue s) = [] \<and> promptFile s = None \<and> length (screenCaptures s) = 0")
  case True
  then show ?thesis by (simp add: sendMessage_def)
next
  case False
  obtain r s' es where p: "processPrompt getId env (trim (textInputValue s)) (promptFile s) s = (r, s', es)"
    by (cases "processPrompt getId env (trim (textInputValue s)) (promptFile s) s") auto
  from False have "sendMessage getId env s =
      (case processPrompt getId env (trim (textInputValue s)) (promptFile s) s of
              (Returned, s', effects) \<Rightarrow> (Succeeded, s'\<lparr>textInputValue := []\<rparr>, effects)
            | (Threw e, s', effects) \<Rightarrow> (Failed, s', effects)
            | (Pending, s', effects) \<Rightarrow> (InFlight, s', effects))"
    unfolding sendMessage_def Let_def by (simp only: if_False)
  then have "snd (snd (sendMessage getId env s)) = es"
    by (cases r) (simp_all add: p)
  with p show ?thesis by simp
qed

lemma sendMessage_attempts:
  assumes "Attempt ps c \<in> set (snd (snd (sendMessage getId env s)))"
  shows "\<exists>attached. attach_file env (promptFile s) = Inr attached \<and>
           ps = a_parts (assemble getId s (trim (textInputValue s)) attached) \<and>
           c = a_config (assemble getId s (trim (textInputValue s)) attached)"
proof -
  let ?p = "processPrompt getId env (trim (textInputValue s)) (promptFile s) s"
  from assms sendMessage_effects [of getId env s]
  have "Attempt ps c \<in> set (snd (snd ?p))" by auto
  from processPrompt_attempts [OF this] show ?thesis by blast
qed

lemma attach_file_part:
  assumes "attach_file env picked = Inr attached"
  shows "\<forall>t. Text t \<notin> set (case attached of None \<Rightarrow> [] | Some (p, _) \<Rightarrow> [p])"
proof (cases picked)
  case None
  with assms show ?thesis by (simp add: attach_file_def)
next
  case (Some f)
  show ?thesis
  proof (cases "readAsDataURL env")
    case (Inl e)
    with assms Some show ?thesis by (simp add: attach_file_def fileToGenerativePart_def)
  next
    case (Inr result)
    with assms Some show ?thesis by (auto simp: attach_file_def fileToGenerativePart_def)
  qed
qed

lemma video_parts_no_text: "Text t \<notin> set (video_parts s)"
  by (simp add: video_parts_def split: option.splits)

text \<open>
  C5. In every request a send dispatches, the text part is the first part and the only
  text part; the screen captures follow it at once, in the order of capture, each as an
  inline part of type image/jpeg whose data is what follows the first comma of its data
  URL; the parts of the context files, of the video context and of the attached file come
  after them.
\<close>

theorem captures_follow_text:
  assumes "Attempt ps c \<in> set (snd (snd (sendMessage getId env s)))"
  shows "\<exists>t rest. ps =
     Text t #
     map (\<lambda>capture. InlineData (at_index (split_on CHR '','' (dataUrl capture)) 1) ''image/jpeg'')
       (screenCaptures s) @ rest \<and> (\<forall>t'. Text t' \<notin> set rest)"
proof -
  from sendMessage_attempts [OF assms] obtain attached where
    att: "attach_file env (promptFile s) = Inr attached" and
    ps: "ps = a_parts (assemble getId s (trim (textInputValue s)) attached)" by blast
  define filePart where "filePart = (case attached of None \<Rightarrow> [] | Some (p, _) \<Rightarrow> [p])"
  define rest where "rest = map context_part (activeContextFiles s) @ video_parts s @ filePart"
  have caps: "map capture_part (screenCaptures s) =
      map (\<lambda>capture. InlineData (at_index (split_on CHR '','' (dataUrl capture)) 1) ''image/jpeg'')
        (screenCaptures s)"
    by (simp add: capture_part_def)
  have eq: "ps = Text (contextPrompt s @ apiText getId s (trim (textInputValue s)) (pushed_parts s filePart))
      # map capture_part (screenCaptures s) @ rest"
    by (simp add: ps a_parts_assemble pushed_parts_def rest_def filePart_def)
  have "Text t' \<notin> set filePart" for t'
    using attach_file_part [OF att] by (simp add: filePart_def)
  then have no_text: "\<forall>t'. Text t' \<notin> set rest"
    by (auto simp: rest_def context_part_def video_parts_no_text)
  from eq no_text show ?thesis unfolding caps by blast
qed

theorem captures_follow_text_witness:
  "\<exists>t rest. [Text ''hi'', InlineData (Some ''AAAA'') ''image/jpeg''] =
     Text t #
     map (\<lambda>capture. InlineData (at_index (split_on CHR '','' (dataUrl capture)) 1) ''image/jpeg'')
       (screenCaptures (initial\<lparr>textInputValue := ''hi'', screenCaptures := [sample_capture]\<rparr>)) @ rest \<and>
     (\<forall>t'. Text t' \<notin> set rest)"
proof -
  have "snd (snd (sendMessage sample_getId sample_env
      (initial\<lparr>textInputValue := ''hi'', screenCaptures := [sample_capture]\<rparr>))) =
      [Attempt [Text ''hi'', InlineData (Some ''AAAA'') ''image/jpeg''] \<lparr>tools = None\<rparr>]"
    by code_simp
  then have "Attempt [Text ''hi'', InlineData (Some ''AAAA'') ''image/jpeg''] \<lparr>tools = None\<rparr>
      \<in> set (snd (snd (sendMessage sample_getId sample_env
      (initial\<lparr>textInputValue := ''hi'', screenCaptures := [sample_capture]\<rparr>))))"
    by simp
  from captures_follow_text [OF this] show ?thesis .
qed

text \<open>
  C5 as the specification states it does not hold: with one capture and the text \<^verbatim>\<open>hi\<close> the
  request has the text part first and the capture second.
\<close>

theorem capture_after_text_counterexample:
  "snd (snd (sendMessage sample_getId sample_env
      (initial\<lparr>textInputValue := ''hi'', screenCaptures := [sample_capture]\<rparr>))) =
      [Attempt [Text ''hi'', InlineData (Some ''AAAA'') ''image/jpeg''] \<lparr>tools = None\<rparr>]"
  by code_simp

lemma trim_Cons_not_ws: "\<not> is_ws c \<Longrightarrow> trim (c # s) \<noteq> []"
  by (simp add: trim_Nil_iff)

text \<open>
  C4. When a YouTube id is extracted from the text, the id is not empty, the prompt is
  the request to analyze the video at the URL (after the instruction naming the context
  files, when there are any, and without the sentence on the local video), and no web
  search is requested. The local video context is handled as for any other text: its part
  is among the parts whenever a video context is present and not yet sent, and a send
  that the backend has answered then sets the flag, whether or not the call goes on to
  return.
\<close>

theorem youtube_rewrites_prompt:
  assumes "truthy (getId promptText)"
  shows "(\<exists>videoId. getId promptText = Some videoId \<and> videoId \<noteq> [] \<and>
            youtubeVideoId (a_userMessage (assemble getId s promptText attached)) = Some videoId) \<and>
         a_parts (assemble getId s promptText attached) =
           Text (contextPrompt s @
                 ''Please analyze this youtube video and answer my questions. The video is at this URL: ''
                   @ promptText)
             # pushed_parts s (case attached of None \<Rightarrow> [] | Some (p, _) \<Rightarrow> [p]) \<and>
         tools (a_config (assemble getId s promptText attached)) = None \<and>
         a_sentVideoContext (assemble getId s promptText attached) = sendsVideoContext s \<and>
         (sendsVideoContext s \<longrightarrow>
            (\<exists>v. videoContextFile s = Some v \<and>
               FileData (mimeType v) (uri v) \<in> set (a_parts (assemble getId s promptText attached)))) \<and>
         (\<forall>env file r s' es.
            processPrompt getId env promptText file s = (r, s', es) \<and> (r = Returned \<or> r = Pending) \<longrightarrow>
            isVideoContextSent s' = (isVideoContextSent s \<or> sendsVideoContext s))"
proof -
  let ?fp = "case attached of None \<Rightarrow> [] | Some (p, _) \<Rightarrow> [p]"
  let ?yt = "''Please analyze this youtube video and answer my questions. The video is at this URL: '' @ promptText"
  from assms obtain videoId where vid: "getId promptText = Some videoId" "videoId \<noteq> []"
    by (auto simp: truthy_def split: option.splits)
  have um: "youtubeVideoId (a_userMessage (assemble getId s promptText attached)) = Some videoId"
    by (simp add: assemble_def Let_def vid)
  have "\<not> is_ws CHR ''P''" by (simp add: is_ws_def)
  then have "trim ?yt \<noteq> []" using trim_Cons_not_ws by simp
  with assms have at: "apiText getId s promptText (pushed_parts s ?fp) = ?yt"
    by (simp add: apiText_def Let_def)
  have parts: "a_parts (assemble getId s promptText attached) =
      Text (contextPrompt s @ ?yt) # pushed_parts s ?fp"
    by (simp only: a_parts_assemble at)
  from assms have cfg: "tools (a_config (assemble getId s promptText attached)) = None"
    by (simp add: a_config_assemble a_useSearch_assemble)
  have sv: "a_sentVideoContext (assemble getId s promptText attached) = sendsVideoContext s"
    by (simp add: assemble_def Let_def)
  have vp: "\<exists>v. videoContextFile s = Some v \<and>
      FileData (mimeType v) (uri v) \<in> set (a_parts (assemble getId s promptText attached))"
    if "sendsVideoContext s"
  proof -
    from that obtain v where v: "videoContextFile s = Some v" "\<not> isVideoContextSent s"
      by (auto simp: sendsVideoContext_def)
    then have "video_parts s = [FileData (mimeType v) (uri v)]" by (simp add: video_parts_def)
    then have "FileData (mimeType v) (uri v) \<in> set (pushed_parts s ?fp)"
      by (simp add: pushed_parts_def)
    with v parts show ?thesis by simp
  qed
  have commit: "isVideoContextSent s' = (isVideoContextSent s \<or> sendsVideoContext s)"
    if "processPrompt getId env promptText picked s = (r, s', es) \<and> (r = Returned \<or> r = Pending)"
    for env picked r s' es
  proof -
    from that have "processPrompt getId env promptText picked s = (r, s', es)"
      and "r = Returned \<or> r = Pending" by simp_all
    then show ?thesis by (rule processPrompt_success(2))
  qed
  from vid um parts cfg sv vp commit show ?thesis by blast
qed

theorem youtube_rewrites_prompt_witness:
  "a_parts (assemble sample_getId (initial\<lparr>videoContextFile := Some sample_video\<rparr>)
      ''https://youtu.be/dQw4w9WgXcQ'' None) =
     [Text ''Please analyze this youtube video and answer my questions. The video is at this URL: https://youtu.be/dQw4w9WgXcQ'',
      FileData ''video/mp4'' ''files/v''] \<and>
   tools (a_config (assemble sample_getId (initial\<lparr>videoContextFile := Some sample_video\<rparr>)
      ''https://youtu.be/dQw4w9WgXcQ'' None)) = None \<and>
   a_sentVideoContext (assemble sample_getId (initial\<lparr>videoContextFile := Some sample_video\<rparr>)
      ''https://youtu.be/dQw4w9WgXcQ'' None)"
proof -
  let ?s = "initial\<lparr>videoContextFile := Some sample_video\<rparr>"
  have h: "truthy (sample_getId ''https://youtu.be/dQw4w9WgXcQ'')"
    by (simp add: truthy_def sample_getId_def)
  have cp: "contextPrompt ?s = []"
    by (simp add: contextPrompt_def activeContextFiles_def initial_def)
  have pp: "pushed_parts ?s [] = [FileData ''video/mp4'' ''files/v'']"
    by (simp add: pushed_parts_def activeContextFiles_def video_parts_def initial_def
        sample_video_def)
  have sv: "sendsVideoContext ?s" by (simp add: sendsVideoContext_def initial_def)
  from youtube_rewrites_prompt [of sample_getId "''https://youtu.be/dQw4w9WgXcQ''" ?s None] h cp pp sv
  show ?thesis by simp
qed

text \<open>
  C4 as the specification states it does not hold: with a YouTube URL as the text and a
  video context not yet sent, the request carries the part of the video context, and the
  send, once it has succeeded, has set the flag.
\<close>

theorem youtube_keeps_video_context_counterexample:
  "snd (snd (sendMessage sample_getId sample_env
      (initial\<lparr>textInputValue := ''https://youtu.be/dQw4w9WgXcQ'',
         videoContextFile := Some sample_video\<rparr>))) =
     [Attempt
        [Text ''Please analyze this youtube video and answer my questions. The video is at this URL: https://youtu.be/dQw4w9WgXcQ'',
         FileData ''video/mp4'' ''files/v'']
        \<lparr>tools = None\<rparr>] \<and>
   fst (sendMessage sample_getId sample_env
      (initial\<lparr>textInputValue := ''https://youtu.be/dQw4w9WgXcQ'',
         videoContextFile := Some sample_video\<rparr>)) = Succeeded \<and>
   \<not> isVideoContextSent (initial\<lparr>textInputValue := ''https://youtu.be/dQw4w9WgXcQ'',
         videoContextFile := Some sample_video\<rparr>) \<and>
   isVideoContextSent (fst (snd (sendMessage sample_getId sample_env
      (initial\<lparr>textInputValue := ''https://youtu.be/dQw4w9WgXcQ'',
         videoContextFile := Some sample_video\<rparr>))))"
  by code_simp

section \<open>Properties of the history import\<close>

lemma is_valid_not_null: "msg \<noteq> JNull \<Longrightarrow> is_valid msg = Inr (conforms msg)"
  by (cases msg) (auto simp: is_valid_def get_prop_def conforms_def split: option.splits json.splits)

lemma filter_valid_without_null:
  "JNull \<notin> set loadedData \<Longrightarrow> filter_valid loadedData = Inr (filter conforms loadedData)"
  by (induction loadedData) (auto simp: is_valid_not_null)

lemma import_without_null:
  "JNull \<notin> set loadedData \<Longrightarrow>
   chatHistory (handleHistoryUpload (Inr (JArray loadedData)) newChat s) =
     map Imported (filter conforms loadedData)"
  by (simp add: handleHistoryUpload_def filter_valid_without_null Let_def split: option.splits)

lemma import_of_one_valid_one_invalid:
  "chatHistory (handleHistoryUpload
     (Inr (JArray [JObject [(''role'', JString ''user''), (''text'', JString ''hi'')],
                   JObject [(''role'', JString ''other'')]])) newChat s) =
   [Imported (JObject [(''role'', JString ''user''), (''text'', JString ''hi'')])]"
  by (simp add: import_without_null conforms_def)

text \<open>
  C8. An array that holds \<^verbatim>\<open>null\<close> next to a valid element: the predicate of the filter
  reads \<^verbatim>\<open>msg.role\<close> of \<^verbatim>\<open>null\<close>, which throws, and the handler reports the error and
  leaves the log as it was, the valid element not loaded, whether or not the component
  has a client.
\<close>

theorem import_aborts_on_null:
  "handleHistoryUpload
     (Inr (JArray [JNull, JObject [(''role'', JString ''user''), (''text'', JString ''hi'')]]))
     newChat initial =
   initial\<lparr>error := ''Failed to load history: Cannot read properties of null (reading '' @
     [CHR 0x27] @ ''role'' @ [CHR 0x27] @ '')''\<rparr> \<and>
   chatHistory (handleHistoryUpload
     (Inr (JArray [JNull, JObject [(''role'', JString ''user''), (''text'', JString ''hi'')]]))
     newChat initial) = []"
  by (simp add: handleHistoryUpload_def is_valid_def get_prop_def initial_def)

section \<open>Properties of the speech chunks\<close>

lemma js_words_unfold:
  "js_words s =
     (if takeWhile (\<lambda>c. \<not> is_ws c) s = [] then [] else [takeWhile (\<lambda>c. \<not> is_ws c) s]) @
     (if dropWhile (\<lambda>c. \<not> is_ws c) s = [] then []
      else js_words (dropWhile is_ws (dropWhile (\<lambda>c. \<not> is_ws c) s)))"
proof -
  have "split_ws s =
     (if dropWhile (\<lambda>c. \<not> is_ws c) s = [] then [takeWhile (\<lambda>c. \<not> is_ws c) s]
      else takeWhile (\<lambda>c. \<not> is_ws c) s # split_ws (dropWhile is_ws (dropWhile (\<lambda>c. \<not> is_ws c) s)))"
    by (rule split_ws.simps)
  then show ?thesis unfolding js_words_def by simp
qed

lemma js_words_Nil: "js_words [] = []"
  using js_words_unfold [of "[]"] by simp

lemma js_words_dropWhile: "js_words (dropWhile is_ws s) = js_words s"
proof (cases s)
  case Nil
  then show ?thesis by simp
next
  case (Cons c s')
  show ?thesis
  proof (cases "is_ws c")
    case True
    have "js_words (c # s') = js_words (dropWhile is_ws (c # s'))"
      using js_words_unfold [of "c # s'"] True by simp
    with Cons show ?thesis by simp
  next
    case False
    with Cons show ?thesis by simp
  qed
qed

lemma js_words_ws_Cons: "is_ws c \<Longrightarrow> js_words (c # s) = js_words s"
  using js_words_dropWhile [of "c # s"] js_words_dropWhile [of s] by simp

lemma js_words_no_ws:
  assumes "\<forall>c\<in>set w. \<not> is_ws c"
  shows "js_words w = (if w = [] then [] else [w])"
proof -
  from assms have "takeWhile (\<lambda>c. \<not> is_ws c) w = w" "dropWhile (\<lambda>c. \<not> is_ws c) w = []"
    by simp_all
  with js_words_unfold [of w] show ?thesis by simp
qed

lemma js_words_append_ws:
  "is_ws c \<Longrightarrow> js_words (a @ c # b) = js_words a @ js_words b"
proof (induction a rule: split_ws.induct)
  case (1 a)
  let ?nw = "\<lambda>c. \<not> is_ws c"
  have cb: "js_words (dropWhile is_ws (c # b)) = js_words b"
    using js_words_dropWhile [of "c # b"] js_words_ws_Cons [OF 1(2), of b] by simp
  show ?case
  proof (cases "dropWhile ?nw a = []")
    case True
    then have all: "\<forall>x\<in>set a. \<not> is_ws x" by (simp add: dropWhile_eq_Nil_conv)
    with 1(2) have tw: "takeWhile ?nw (a @ c # b) = a" "dropWhile ?nw (a @ c # b) = c # b"
      by (simp_all add: takeWhile_append dropWhile_append)
    have "js_words (a @ c # b) = (if a = [] then [] else [a]) @ js_words (dropWhile is_ws (c # b))"
      using js_words_unfold [of "a @ c # b"] unfolding tw by simp
    then show ?thesis
      unfolding cb using js_words_no_ws [OF all] by simp
  next
    case False
    define r where "r = dropWhile ?nw a"
    define w where "w = takeWhile ?nw a"
    from False have rne: "r \<noteq> []" by (simp add: r_def)
    from False have ex: "\<exists>x\<in>set a. is_ws x"
      by (auto simp: dropWhile_eq_Nil_conv)
    have tw1: "takeWhile ?nw (a @ c # b) = w"
      using ex by (auto simp: takeWhile_append w_def)
    have tw2: "dropWhile ?nw (a @ c # b) = r @ c # b"
      using ex by (auto simp: dropWhile_append r_def)
    have step: "js_words (a @ c # b) =
        (if w = [] then [] else [w]) @ js_words (dropWhile is_ws (r @ c # b))"
      using js_words_unfold [of "a @ c # b"] rne unfolding tw1 tw2 by simp
    have rest: "js_words (dropWhile is_ws (r @ c # b)) = js_words (dropWhile is_ws r) @ js_words b"
    proof (cases "\<forall>x\<in>set r. is_ws x")
      case True
      then have d1: "dropWhile is_ws (r @ c # b) = dropWhile is_ws (c # b)"
        by (simp add: dropWhile_append)
      from True have d2: "dropWhile is_ws r = []" by simp
      show ?thesis unfolding d1 d2 cb js_words_Nil by simp
    next
      case False
      then have d: "dropWhile is_ws (r @ c # b) = dropWhile is_ws r @ c # b"
        by (auto simp: dropWhile_append)
      have "js_words (dropWhile is_ws (dropWhile ?nw a) @ c # b) =
          js_words (dropWhile is_ws (dropWhile ?nw a)) @ js_words b"
        using \<open>dropWhile ?nw a \<noteq> []\<close> 1(2) by (rule 1(1))
      then have "js_words (dropWhile is_ws r @ c # b) = js_words (dropWhile is_ws r) @ js_words b"
        by (simp only: r_def)
      then show ?thesis by (simp only: d)
    qed
    have whole: "js_words a = (if w = [] then [] else [w]) @ js_words (dropWhile is_ws r)"
      using js_words_unfold [of a] ex unfolding w_def r_def by auto
    show ?thesis unfolding step rest whole by simp
  qed
qed

lemma js_words_all_ws: "\<forall>c\<in>set v. is_ws c \<Longrightarrow> js_words v = []"
  by (induction v) (simp_all add: js_words_Nil js_words_ws_Cons)

lemma js_words_append_all_ws: "\<forall>c\<in>set v. is_ws c \<Longrightarrow> js_words (u @ v) = js_words u"
proof (cases v)
  case Nil
  then show ?thesis by simp
next
  case (Cons c v')
  assume all: "\<forall>c\<in>set v. is_ws c"
  with Cons have "is_ws c" "\<forall>c\<in>set v'. is_ws c" by simp_all
  then show ?thesis
    using js_words_append_ws [of c u v'] js_words_all_ws [of v'] Cons by simp
qed

lemma js_words_trim: "js_words (trim s) = js_words s"
proof -
  define t where "t = dropWhile is_ws s"
  have "rev t = takeWhile is_ws (rev t) @ dropWhile is_ws (rev t)" by simp
  then have "rev (rev t) = rev (takeWhile is_ws (rev t) @ dropWhile is_ws (rev t))" by simp
  then have t: "t = rev (dropWhile is_ws (rev t)) @ rev (takeWhile is_ws (rev t))"
    by (simp only: rev_rev_ident rev_append)
  have "\<forall>c\<in>set (rev (takeWhile is_ws (rev t))). is_ws c"
    by (auto dest: set_takeWhileD)
  from js_words_append_all_ws [OF this, of "rev (dropWhile is_ws (rev t))"] t
  have "js_words t = js_words (rev (dropWhile is_ws (rev t)))" by simp
  then show ?thesis
    unfolding trim_def t_def by (simp add: js_words_dropWhile)
qed

lemma js_words_boundary:
  assumes "a = [] \<or> b = [] \<or> is_ws (last a) \<or> is_ws (hd b)"
  shows "js_words (a @ b) = js_words a @ js_words b"
proof -
  consider "a = []" | "b = []" | "a \<noteq> []" "is_ws (last a)" | "b \<noteq> []" "is_ws (hd b)"
    using assms by blast
  then show ?thesis
  proof cases
    case 1
    then show ?thesis by (simp add: js_words_Nil)
  next
    case 2
    then show ?thesis by (simp add: js_words_Nil)
  next
    case 3
    then have a: "a = butlast a @ [last a]" by simp
    have "js_words (butlast a @ last a # b) = js_words (butlast a) @ js_words b"
      using 3(2) by (rule js_words_append_ws)
    moreover have "js_words (butlast a @ [last a]) = js_words (butlast a)"
      using js_words_append_ws [OF 3(2), of "butlast a" "[]"] by (simp add: js_words_Nil)
    ultimately show ?thesis using a by (metis append.assoc append_Cons append_Nil)
  next
    case 4
    then have b: "b = hd b # tl b" by simp
    have "js_words (a @ hd b # tl b) = js_words a @ js_words (tl b)"
      using 4(2) by (rule js_words_append_ws)
    moreover have "js_words (hd b # tl b) = js_words (tl b)"
      using 4(2) by (rule js_words_ws_Cons)
    ultimately show ?thesis using b by metis
  qed
qed

lemma split_ws_last:
  "dropWhile (\<lambda>c. \<not> is_ws c) s = [] \<Longrightarrow> split_ws s = [takeWhile (\<lambda>c. \<not> is_ws c) s]"
  using split_ws.simps [of s] by (simp del: dropWhile_eq_Nil_conv)

lemma split_ws_more:
  "dropWhile (\<lambda>c. \<not> is_ws c) s \<noteq> [] \<Longrightarrow>
   split_ws s = takeWhile (\<lambda>c. \<not> is_ws c) s # split_ws (dropWhile is_ws (dropWhile (\<lambda>c. \<not> is_ws c) s))"
  using split_ws.simps [of s] by (simp del: dropWhile_eq_Nil_conv)

lemma split_ws_pieces:
  "w \<in> set (split_ws s) \<Longrightarrow> (\<forall>c\<in>set w. \<not> is_ws c) \<and> sublist w s"
proof (induction s rule: split_ws.induct)
  case (1 s)
  let ?nw = "\<lambda>c. \<not> is_ws c"
  have head: "(\<forall>c\<in>set (takeWhile ?nw s). \<not> is_ws c) \<and> sublist (takeWhile ?nw s) s"
    by (auto dest: set_takeWhileD)
  show ?case
  proof (cases "dropWhile ?nw s = []")
    case True
    then have "split_ws s = [takeWhile ?nw s]" by (rule split_ws_last)
    with 1(2) head show ?thesis by simp
  next
    case False
    then have "split_ws s = takeWhile ?nw s # split_ws (dropWhile is_ws (dropWhile ?nw s))"
      by (rule split_ws_more)
    with 1(2) consider "w = takeWhile ?nw s" | "w \<in> set (split_ws (dropWhile is_ws (dropWhile ?nw s)))"
      by auto
    then show ?thesis
    proof cases
      case 1
      with head show ?thesis by simp
    next
      case 2
      from "1.IH" [OF False 2]
      have ih: "(\<forall>c\<in>set w. \<not> is_ws c)" "sublist w (dropWhile is_ws (dropWhile ?nw s))"
        by simp_all
      have "sublist (dropWhile is_ws (dropWhile ?nw s)) s"
        by (meson sublist_dropWhile sublist_order.order.trans)
      with ih show ?thesis by (meson sublist_order.order.trans)
    qed
  qed
qed

lemma concat_words_of_pieces:
  "\<forall>w\<in>set ws. \<forall>c\<in>set w. \<not> is_ws c \<Longrightarrow>
   concat (map js_words ws) = filter (\<lambda>w. w \<noteq> []) ws"
  by (induction ws) (simp_all add: js_words_no_ws)

lemma concat_words_split_ws: "concat (map js_words (split_ws t)) = js_words t"
proof -
  have "\<forall>w\<in>set (split_ws t). \<forall>c\<in>set w. \<not> is_ws c"
    using split_ws_pieces by blast
  from concat_words_of_pieces [OF this] show ?thesis by (simp add: js_words_def)
qed

lemma pack_push:
  "length cur + length word + 1 > MAX_CHUNK_LENGTH \<Longrightarrow>
   pack (word # wds) chunks cur = pack wds (chunks @ [cur]) word"
  by simp

lemma pack_extend:
  "\<not> length cur + length word + 1 > MAX_CHUNK_LENGTH \<Longrightarrow>
   pack (word # wds) chunks cur = pack wds chunks (cur @ (if cur \<noteq> [] then '' '' else []) @ word)"
  by simp

lemma js_words_extend:
  "js_words (cur @ (if cur \<noteq> [] then '' '' else []) @ word) = js_words cur @ js_words word"
proof (cases "cur = []")
  case True
  then show ?thesis by (simp add: js_words_Nil)
next
  case False
  have "is_ws CHR '' ''" by (simp add: is_ws_def)
  then have "js_words (cur @ CHR '' '' # word) = js_words cur @ js_words word"
    by (rule js_words_append_ws)
  with False show ?thesis by simp
qed

lemma pack_words:
  assumes "\<forall>w\<in>set wds. \<forall>c\<in>set w. \<not> is_ws c"
  shows "concat (map js_words (fst (pack wds chunks cur))) @ js_words (snd (pack wds chunks cur)) =
     concat (map js_words chunks) @ js_words cur @ concat (map js_words wds)"
  using assms
proof (induction wds arbitrary: chunks cur)
  case Nil
  then show ?case by simp
next
  case (Cons word wds)
  from Cons.prems have rest: "\<forall>w\<in>set wds. \<forall>c\<in>set w. \<not> is_ws c" by simp
  show ?case
  proof (cases "length cur + length word + 1 > MAX_CHUNK_LENGTH")
    case True
    have "concat (map js_words (fst (pack wds (chunks @ [cur]) word))) @
        js_words (snd (pack wds (chunks @ [cur]) word)) =
        concat (map js_words (chunks @ [cur])) @ js_words word @ concat (map js_words wds)"
      using rest by (rule Cons.IH)
    then show ?thesis unfolding pack_push [OF True] by simp
  next
    case False
    let ?cur = "cur @ (if cur \<noteq> [] then '' '' else []) @ word"
    have "concat (map js_words (fst (pack wds chunks ?cur))) @ js_words (snd (pack wds chunks ?cur)) =
        concat (map js_words chunks) @ js_words ?cur @ concat (map js_words wds)"
      using rest by (rule Cons.IH)
    then show ?thesis unfolding pack_extend [OF False] js_words_extend by simp
  qed
qed

lemma pack_lengths:
  assumes "\<forall>w\<in>set wds. length w \<le> MAX_CHUNK_LENGTH"
    and "length cur \<le> MAX_CHUNK_LENGTH" and "\<forall>c\<in>set chunks. length c \<le> MAX_CHUNK_LENGTH"
  shows "(\<forall>c\<in>set (fst (pack wds chunks cur)). length c \<le> MAX_CHUNK_LENGTH) \<and>
     length (snd (pack wds chunks cur)) \<le> MAX_CHUNK_LENGTH"
  using assms
proof (induction wds arbitrary: chunks cur)
  case Nil
  then show ?case by simp
next
  case (Cons word wds)
  from Cons.prems(1) have rest: "\<forall>w\<in>set wds. length w \<le> MAX_CHUNK_LENGTH" and
    word: "length word \<le> MAX_CHUNK_LENGTH" by simp_all
  show ?case
  proof (cases "length cur + length word + 1 > MAX_CHUNK_LENGTH")
    case True
    from Cons.prems(2,3) have "\<forall>c\<in>set (chunks @ [cur]). length c \<le> MAX_CHUNK_LENGTH" by simp
    with rest word show ?thesis unfolding pack_push [OF True] by (rule Cons.IH)
  next
    case False
    let ?cur = "cur @ (if cur \<noteq> [] then '' '' else []) @ word"
    from False have "length ?cur \<le> MAX_CHUNK_LENGTH" by simp
    with rest show ?thesis unfolding pack_extend [OF False] using Cons.prems(3) by (rule Cons.IH)
  qed
qed

lemma sentence_chunks_words: "concat (map js_words (sentence_chunks sn)) = js_words sn"
proof -
  define t where "t = trim sn"
  have t: "js_words t = js_words sn" by (simp add: t_def js_words_trim)
  show ?thesis
  proof (cases "length t = 0")
    case True
    then have "sentence_chunks sn = []" by (simp add: sentence_chunks_def t_def)
    moreover from True t have "js_words sn = []" by (simp add: js_words_Nil)
    ultimately show ?thesis by simp
  next
    case False
    show ?thesis
    proof (cases "length t > MAX_CHUNK_LENGTH")
      case short: False
      with False have "sentence_chunks sn = [t]" by (simp add: sentence_chunks_def t_def)
      with t show ?thesis by simp
    next
      case True
      define p where "p = pack (split_ws t) [] []"
      have sc: "sentence_chunks sn = (if snd p \<noteq> [] then fst p @ [snd p] else fst p)"
        using False True by (simp add: sentence_chunks_def t_def [symmetric] p_def split: prod.splits)
      have "\<forall>w\<in>set (split_ws t). \<forall>c\<in>set w. \<not> is_ws c"
        using split_ws_pieces by blast
      from pack_words [OF this, of "[]" "[]"]
      have "concat (map js_words (fst p)) @ js_words (snd p) = js_words t"
        by (simp add: p_def js_words_Nil concat_words_split_ws)
      then have "concat (map js_words (if snd p \<noteq> [] then fst p @ [snd p] else fst p)) = js_words t"
        by (cases "snd p = []") (simp_all add: js_words_Nil)
      with sc t show ?thesis by simp
    qed
  qed
qed

lemma tts_chunks_words:
  "concat (map js_words (tts_chunks text)) = concat (map js_words (sentences text))"
proof -
  have "concat (map js_words (concat (map sentence_chunks sns))) = concat (map js_words sns)" for sns
    by (induction sns) (simp_all add: sentence_chunks_words)
  then show ?thesis by (simp add: tts_chunks_def)
qed

lemma js_words_join: "js_words (js_join '' '' chunks) = concat (map js_words chunks)"
proof (induction "'' ''" chunks rule: js_join.induct)
  case 1
  show ?case by (simp add: js_words_Nil)
next
  case (2 x)
  show ?case by simp
next
  case (3 x y ys)
  have "is_ws CHR '' ''" by (simp add: is_ws_def)
  then have "js_words (x @ CHR '' '' # js_join '' '' (y # ys)) =
      js_words x @ js_words (js_join '' '' (y # ys))"
    by (rule js_words_append_ws)
  with 3 show ?case by simp
qed

lemma sentences_Nil: "dropWhile is_punct s = [] \<Longrightarrow> sentences s = []"
  using sentences.simps [of s] by (simp del: dropWhile_eq_Nil_conv)

lemma sentences_Cons:
  "dropWhile is_punct s \<noteq> [] \<Longrightarrow>
   sentences s = sentence_head (dropWhile is_punct s) # sentences (sentence_rest (dropWhile is_punct s))"
  using sentences.simps [of s] by (simp del: dropWhile_eq_Nil_conv)

lemma head_rest: "sentence_head s @ sentence_rest s = s"
  by (simp add: sentence_head_def sentence_rest_def)

lemma punct_then_space_tl: "punct_then_space (x # s) \<Longrightarrow> punct_then_space s"
  by (cases s) simp_all

lemma punct_then_space_suffix: "punct_then_space (xs @ ys) \<Longrightarrow> punct_then_space ys"
  by (induction xs) (auto dest: punct_then_space_tl)

lemma punct_then_space_mid:
  assumes "punct_then_space (xs @ c # d # ys)" and "is_punct c"
  shows "is_punct d \<or> is_ws d"
proof -
  from assms(1) have "punct_then_space (c # d # ys)" by (rule punct_then_space_suffix)
  with assms(2) show ?thesis by simp
qed

lemma sentence_boundary:
  assumes "punct_then_space s" and "sentence_rest s \<noteq> []"
  shows "sentence_head s \<noteq> [] \<and> is_ws (last (sentence_head s))"
proof -
  let ?np = "\<lambda>c. \<not> is_punct c"
  let ?pw = "\<lambda>c. is_punct c \<or> is_ws c"
  define a where "a = takeWhile ?np s"
  define r where "r = dropWhile ?np s"
  define b where "b = takeWhile ?pw r"
  define rest where "rest = dropWhile ?pw r"
  have hd: "sentence_head s = a @ b" and rs: "sentence_rest s = rest"
    by (simp_all add: sentence_head_def sentence_rest_def a_def b_def r_def rest_def)
  from assms(2) rs have restne: "rest \<noteq> []" by simp
  then have rne: "r \<noteq> []" by (auto simp: rest_def)
  then have "\<not> ?np (hd r)" unfolding r_def by (rule hd_dropWhile)
  with rne have bne: "b \<noteq> []" unfolding b_def by (cases r) auto
  from restne have nrest: "\<not> ?pw (hd rest)" unfolding rest_def by (rule hd_dropWhile)
  have "last b \<in> set b" using bne by simp
  then have lb: "?pw (last b)" unfolding b_def by (auto dest: set_takeWhileD)
  have s: "s = a @ b @ rest" by (simp add: a_def b_def r_def rest_def)
  have "is_ws (last b)"
  proof (rule ccontr)
    assume "\<not> is_ws (last b)"
    with lb have p: "is_punct (last b)" by simp
    from bne restne have "s = (a @ butlast b) @ last b # hd rest # tl rest"
      by (simp add: s)
    with assms(1) have "punct_then_space ((a @ butlast b) @ last b # hd rest # tl rest)" by simp
    from punct_then_space_mid [OF this p] nrest show False by simp
  qed
  with bne hd show ?thesis by simp
qed

lemma sentences_words:
  "sentences_end_at_spaces s \<Longrightarrow> concat (map js_words (sentences s)) = js_words s"
proof (induction s rule: sentences.induct)
  case (1 s)
  from 1(2) have start: "s = [] \<or> \<not> is_punct (hd s)" and pts: "punct_then_space s"
    by (simp_all add: sentences_end_at_spaces_def)
  from start have d: "dropWhile is_punct s = s" by (cases s) auto
  show ?case
  proof (cases "s = []")
    case True
    then show ?thesis by (simp add: sentences_Nil js_words_Nil)
  next
    case False
    with d have dne: "dropWhile is_punct s \<noteq> []" by simp
    have unfold: "sentences s = sentence_head s # sentences (sentence_rest s)"
      using sentences_Cons [OF dne] by (simp only: d)
    have "punct_then_space (sentence_head s @ sentence_rest s)" using pts by (simp only: head_rest)
    then have pr: "punct_then_space (sentence_rest s)" by (rule punct_then_space_suffix)
    have "sentence_rest s = [] \<or> \<not> is_punct (hd (sentence_rest s))"
    proof (cases "sentence_rest s = []")
      case False
      then have "\<not> (is_punct (hd (sentence_rest s)) \<or> is_ws (hd (sentence_rest s)))"
        unfolding sentence_rest_def by (rule hd_dropWhile)
      then show ?thesis by simp
    qed simp
    with pr have "sentences_end_at_spaces (sentence_rest s)"
      by (simp add: sentences_end_at_spaces_def)
    then have "sentences_end_at_spaces (sentence_rest (dropWhile is_punct s))" by (simp only: d)
    with dne have "concat (map js_words (sentences (sentence_rest (dropWhile is_punct s)))) =
        js_words (sentence_rest (dropWhile is_punct s))"
      by (rule "1.IH")
    then have ih: "concat (map js_words (sentences (sentence_rest s))) = js_words (sentence_rest s)"
      by (simp only: d)
    have "sentence_head s = [] \<or> sentence_rest s = [] \<or> is_ws (last (sentence_head s)) \<or>
        is_ws (hd (sentence_rest s))"
      using sentence_boundary [OF pts] by blast
    then have "js_words (sentence_head s @ sentence_rest s) =
        js_words (sentence_head s) @ js_words (sentence_rest s)"
      by (rule js_words_boundary)
    then have "js_words s = js_words (sentence_head s) @ js_words (sentence_rest s)"
      by (simp only: head_rest)
    with unfold ih show ?thesis by simp
  qed
qed

lemma sublist_around:
  assumes "sublist u (xs @ c # ys)" and "c \<notin> set u"
  shows "sublist u xs \<or> sublist u ys"
proof -
  from assms(1) consider "sublist u xs" | "sublist u (c # ys)"
    | u1 u2 where "u = u1 @ u2" "suffix u1 xs" "prefix u2 (c # ys)"
    unfolding sublist_append by blast
  then show ?thesis
  proof cases
    case 1
    then show ?thesis by simp
  next
    case 2
    then have "prefix u (c # ys) \<or> sublist u ys" by (simp add: sublist_Cons_right)
    moreover have "u = []" if "prefix u (c # ys)"
      using that assms(2) by (cases u) auto
    ultimately show ?thesis by auto
  next
    case 3
    from 3(1) assms(2) have "c \<notin> set u2" by simp
    with 3(3) have "u2 = []" by (cases u2) auto
    with 3(1,2) show ?thesis by auto
  qed
qed

lemma sublist_after_ws:
  assumes "sublist u ys" and "\<forall>c\<in>set u. \<not> is_ws c"
  shows "u = [] \<or> sublist u (dropWhile is_ws ys)"
  using assms(1)
proof (induction ys)
  case Nil
  then show ?case by simp
next
  case (Cons y ys)
  show ?case
  proof (cases "is_ws y")
    case True
    with assms(2) have "y \<notin> set u" by blast
    with sublist_around [of u "[]" y ys] Cons.prems have "u = [] \<or> sublist u ys" by simp
    with Cons.IH True show ?thesis by auto
  next
    case False
    with Cons.prems show ?thesis by simp
  qed
qed

lemma run_within_word:
  assumes "\<forall>w\<in>set (js_words s). length w \<le> n"
    and "sublist u s" and "\<forall>c\<in>set u. \<not> is_ws c"
  shows "length u \<le> n"
  using assms(1,2)
proof (induction s rule: split_ws.induct)
  case (1 s)
  let ?nw = "\<lambda>c. \<not> is_ws c"
  define w where "w = takeWhile ?nw s"
  define r where "r = dropWhile ?nw s"
  have s: "s = w @ r" by (simp add: w_def r_def)
  have in_w: "length u \<le> n" if "sublist u w"
  proof (cases "w = []")
    case True
    with that show ?thesis by simp
  next
    case False
    then have "w \<in> set (js_words s)"
      using js_words_unfold [of s] by (simp add: w_def)
    with "1.prems"(1) have "length w \<le> n" by blast
    with sublist_length_le [OF that] show ?thesis by simp
  qed
  show ?case
  proof (cases "r = []")
    case True
    with "1.prems"(2) s have "sublist u w" by simp
    then show ?thesis by (rule in_w)
  next
    case False
    then have "\<not> ?nw (hd r)" unfolding r_def by (rule hd_dropWhile)
    then have ws: "is_ws (hd r)" by simp
    with assms(3) have notin: "hd r \<notin> set u" by blast
    from False s have "s = w @ hd r # tl r" by simp
    with "1.prems"(2) have "sublist u (w @ hd r # tl r)" by simp
    from sublist_around [OF this notin] consider "sublist u w" | "sublist u (tl r)" by blast
    then show ?thesis
    proof cases
      case 1
      then show ?thesis by (rule in_w)
    next
      case 2
      from sublist_after_ws [OF 2 assms(3)] have "u = [] \<or> sublist u (dropWhile is_ws (tl r))" .
      moreover have "dropWhile is_ws r = dropWhile is_ws (tl r)"
        using False ws by (cases r) auto
      ultimately consider "u = []" | "sublist u (dropWhile is_ws (dropWhile ?nw s))"
        by (auto simp: r_def)
      then show ?thesis
      proof cases
        case 1
        then show ?thesis by simp
      next
        case 2
        from False have ne: "dropWhile ?nw s \<noteq> []" by (simp add: r_def)
        have "set (js_words (dropWhile is_ws (dropWhile ?nw s))) \<subseteq> set (js_words s)"
          using js_words_unfold [of s] ne by (auto simp del: dropWhile_eq_Nil_conv)
        with "1.prems"(1) have "\<forall>w\<in>set (js_words (dropWhile is_ws (dropWhile ?nw s))). length w \<le> n"
          by blast
        with ne show ?thesis using 2 by (rule "1.IH")
      qed
    qed
  qed
qed

lemma sublist_trim: "sublist (trim s) s"
proof -
  have "sublist (dropWhile is_ws (rev (dropWhile is_ws s))) (rev (dropWhile is_ws s))"
    by (rule sublist_dropWhile)
  then have "sublist (trim s) (dropWhile is_ws s)"
    by (simp add: trim_def sublist_rev_left)
  moreover have "sublist (dropWhile is_ws s) s" by (rule sublist_dropWhile)
  ultimately show ?thesis by (rule sublist_order.order.trans)
qed

lemma sublist_sentences: "sn \<in> set (sentences s) \<Longrightarrow> sublist sn s"
proof (induction s rule: sentences.induct)
  case (1 s)
  define d where "d = dropWhile is_punct s"
  show ?case
  proof (cases "d = []")
    case True
    with "1.prems" show ?thesis by (simp add: sentences_Nil d_def)
  next
    case False
    then have ne: "dropWhile is_punct s \<noteq> []" by (simp add: d_def)
    have ds: "sublist d s" unfolding d_def by (rule sublist_dropWhile)
    have "d = sentence_head d @ sentence_rest d" by (simp only: head_rest)
    then have hd: "sublist (sentence_head d) d" and rd: "sublist (sentence_rest d) d"
      by (metis sublist_append_rightI, metis sublist_append_leftI)
    from "1.prems" sentences_Cons [OF ne]
    consider "sn = sentence_head d" | "sn \<in> set (sentences (sentence_rest d))"
      by (auto simp: d_def)
    then show ?thesis
    proof cases
      case 1
      with hd ds show ?thesis by (metis sublist_order.order.trans)
    next
      case 2
      then have "sn \<in> set (sentences (sentence_rest (dropWhile is_punct s)))" by (simp only: d_def)
      with ne have "sublist sn (sentence_rest (dropWhile is_punct s))" by (rule "1.IH")
      then have "sublist sn (sentence_rest d)" by (simp only: d_def)
      with rd ds show ?thesis by (metis sublist_order.order.trans)
    qed
  qed
qed

lemma sentence_chunks_lengths:
  assumes "\<forall>w\<in>set (js_words text). length w \<le> MAX_CHUNK_LENGTH" and "sublist sn text"
  shows "\<forall>c\<in>set (sentence_chunks sn). length c \<le> MAX_CHUNK_LENGTH"
proof -
  define t where "t = trim sn"
  have "sublist t sn" unfolding t_def by (rule sublist_trim)
  with assms(2) have tt: "sublist t text" by (metis sublist_order.order.trans)
  show ?thesis
  proof (cases "length t = 0")
    case True
    then show ?thesis by (simp add: sentence_chunks_def t_def)
  next
    case False
    show ?thesis
    proof (cases "length t > MAX_CHUNK_LENGTH")
      case short: False
      with False have "sentence_chunks sn = [t]" by (simp add: sentence_chunks_def t_def)
      with short show ?thesis by simp
    next
      case True
      define p where "p = pack (split_ws t) [] []"
      have sc: "sentence_chunks sn = (if snd p \<noteq> [] then fst p @ [snd p] else fst p)"
        using False True by (simp add: sentence_chunks_def t_def [symmetric] p_def split: prod.splits)
      have "length w \<le> MAX_CHUNK_LENGTH" if "w \<in> set (split_ws t)" for w
      proof -
        from split_ws_pieces [OF that] have free: "\<forall>c\<in>set w. \<not> is_ws c" and "sublist w t"
          by simp_all
        with tt have "sublist w text" by (metis sublist_order.order.trans)
        with assms(1) show ?thesis using free by (rule run_within_word)
      qed
      then have "\<forall>w\<in>set (split_ws t). length w \<le> MAX_CHUNK_LENGTH" by blast
      from pack_lengths [OF this, of "[]" "[]"]
      have "(\<forall>c\<in>set (fst p). length c \<le> MAX_CHUNK_LENGTH) \<and> length (snd p) \<le> MAX_CHUNK_LENGTH"
        by (simp add: p_def)
      with sc show ?thesis by auto
    qed
  qed
qed

lemma tts_chunks_lengths:
  assumes "\<forall>w\<in>set (js_words text). length w \<le> MAX_CHUNK_LENGTH"
  shows "\<forall>c\<in>set (tts_chunks text). length c \<le> MAX_CHUNK_LENGTH"
proof
  fix c
  assume "c \<in> set (tts_chunks text)"
  then obtain sn where sn: "sn \<in> set (sentences text)" and c: "c \<in> set (sentence_chunks sn)"
    by (auto simp: tts_chunks_def)
  from sn have "sublist sn text" by (rule sublist_sentences)
  from sentence_chunks_lengths [OF assms this] c show "length c \<le> MAX_CHUNK_LENGTH" by blast
qed

text \<open>
  C7. For every reply text in which no word is longer than 160 characters, every chunk
  has at most 160 characters. For every reply text that does not begin with one of
  \<^verbatim>\<open>.!?\<close> and in which each of them is followed by another one, by white space or by
  the end of the text, the chunks are made of whole words of the text: joined by single
  spaces, they have the words of the text, in order. A sentence of 500 characters without
  punctuation, of words that fit, meets both conditions.
\<close>

theorem chunks_fit_and_keep_words:
  "(words_fit text \<longrightarrow> list_all (\<lambda>chunk. length chunk \<le> 160) (tts_chunks text)) \<and>
   (sentences_end_at_spaces text \<longrightarrow>
      concat (map js_words (tts_chunks text)) = js_words text \<and>
      js_words (js_join '' '' (tts_chunks text)) = js_words text)"
proof -
  have fit: "list_all (\<lambda>chunk. length chunk \<le> 160) (tts_chunks text)" if "words_fit text"
  proof -
    from that have "\<forall>w\<in>set (js_words text). length w \<le> MAX_CHUNK_LENGTH"
      by (simp add: words_fit_def list_all_iff)
    from tts_chunks_lengths [OF this] show ?thesis
      by (simp add: list_all_iff MAX_CHUNK_LENGTH_def)
  qed
  have keep: "concat (map js_words (tts_chunks text)) = js_words text \<and>
      js_words (js_join '' '' (tts_chunks text)) = js_words text"
    if "sentences_end_at_spaces text"
    using sentences_words [OF that] by (simp add: tts_chunks_words js_words_join)
  from fit keep show ?thesis by blast
qed

theorem chunks_fit_and_keep_words_witness:
  "length (concat (replicate 100 ''word '')) = 500 \<and>
   list_all (\<lambda>chunk. length chunk \<le> 160) (tts_chunks (concat (replicate 100 ''word ''))) \<and>
   js_words (js_join '' '' (tts_chunks (concat (replicate 100 ''word '')))) =
     js_words (concat (replicate 100 ''word ''))"
proof -
  have l: "length (concat (replicate 100 ''word '')) = 500" by code_simp
  have f: "words_fit (concat (replicate 100 ''word ''))" by code_simp
  have e: "sentences_end_at_spaces (concat (replicate 100 ''word ''))" by code_simp
  from chunks_fit_and_keep_words [of "concat (replicate 100 ''word '')"] l f e
  show ?thesis by blast
qed

text \<open>
  C7 as the specification states it does not hold for a text of one word of 161
  characters, which is one chunk of 161 characters after an empty one, and for a text
  with a full stop inside a word, which ends a sentence there.
\<close>

theorem long_word_and_inner_stop_counterexample:
  "map length (tts_chunks (replicate 161 CHR ''a'')) = [0, 161] \<and>
   \<not> list_all (\<lambda>chunk. length chunk \<le> 160) (tts_chunks (replicate 161 CHR ''a'')) \<and>
   tts_chunks ''see example.com now'' = [''see example.'', ''com now''] \<and>
   js_words (js_join '' '' (tts_chunks ''see example.com now'')) = [''see'', ''example.'', ''com'', ''now''] \<and>
   js_words ''see example.com now'' = [''see'', ''example.com'', ''now'']"
  by code_simp

section \<open>Properties of the visualizer\<close>

lemma inv_initial: "visual_inv visual_initial"
  by (simp add: visual_inv_def visual_initial_def)

lemma run_cleanup_calls:
  "set (audio_calls v) \<subseteq> set (audio_calls (run_cleanup c v))"
  by (cases c) (auto simp: run_cleanup_def split: option.splits)

lemma inv_call_sourceCleanup:
  assumes "visual_inv v"
  shows "visual_inv (call_sourceCleanup v)"
    and "sourceCleanup (call_sourceCleanup v) = sourceCleanup v"
    and "analyser (call_sourceCleanup v) = analyser v"
    and "inputNode (call_sourceCleanup v) = inputNode v"
    and "videoElement (call_sourceCleanup v) = videoElement v"
proof -
  show "sourceCleanup (call_sourceCleanup v) = sourceCleanup v"
    "analyser (call_sourceCleanup v) = analyser v"
    "inputNode (call_sourceCleanup v) = inputNode v"
    "videoElement (call_sourceCleanup v) = videoElement v"
    by (auto simp: call_sourceCleanup_def run_cleanup_def split: option.splits cleanup.splits)
  show "visual_inv (call_sourceCleanup v)"
  proof (cases "sourceCleanup v")
    case None
    with assms show ?thesis by (simp add: call_sourceCleanup_def)
  next
    case (Some c)
    show ?thesis
    proof (cases c)
      case (MicCleanup g)
      with Some assms show ?thesis
        by (auto simp: call_sourceCleanup_def run_cleanup_def visual_inv_def split: option.splits)
    next
      case (VideoCleanup videoEl source audioContext)
      with Some assms obtain k where "audioContext = Own k" by (auto simp: visual_inv_def)
      with VideoCleanup Some assms show ?thesis
        by (auto simp: call_sourceCleanup_def run_cleanup_def visual_inv_def split: option.splits)
    qed
  qed
qed

lemma inv_setupMicVisualizer:
  assumes "visual_inv v"
  shows "visual_inv (setupMicVisualizer g v)"
proof -
  define v1 where "v1 = call_sourceCleanup v"
  from inv_call_sourceCleanup(1) [OF assms] have "visual_inv v1" by (simp add: v1_def)
  then show ?thesis
    unfolding setupMicVisualizer_def Let_def v1_def [symmetric]
    by (auto simp: visual_inv_def)
qed

lemma inv_setupVideoVisualizer:
  assumes "visual_inv v"
  shows "visual_inv (setupVideoVisualizer videoEl how v)"
proof -
  define v1 where "v1 = call_sourceCleanup v"
  from inv_call_sourceCleanup(1) [OF assms] have "visual_inv v1" by (simp add: v1_def)
  then show ?thesis
    unfolding setupVideoVisualizer_def Let_def v1_def [symmetric]
    by (cases how) (auto simp: visual_inv_def)
qed

lemma inv_updated:
  assumes "visual_inv v"
  shows "visual_inv (updated changedInput changedVideo how v)"
proof (cases "videoElement v")
  case (Some videoEl)
  with assms show ?thesis by (simp add: updated_def inv_setupVideoVisualizer)
next
  case None
  show ?thesis
  proof (cases "inputNode v")
    case (Some g)
    with None assms show ?thesis by (simp add: updated_def inv_setupMicVisualizer)
  next
    case no_input: None
    from inv_call_sourceCleanup(1) [OF assms]
    have "visual_inv ((call_sourceCleanup v)\<lparr>sourceCleanup := None, analyser := None\<rparr>)"
      by (simp add: visual_inv_def)
    with None no_input show ?thesis by (simp add: updated_def)
  qed
qed

lemma inv_disconnectedCallback:
  assumes "visual_inv v"
  shows "visual_inv (disconnectedCallback v)"
  using inv_call_sourceCleanup(1) [OF assms]
  by (simp add: disconnectedCallback_def visual_inv_def)

lemma inv_properties: "visual_inv v \<Longrightarrow> visual_inv (v\<lparr>inputNode := i, videoElement := e\<rparr>)"
  by (simp add: visual_inv_def)

lemma inv_visual_step: "visual_inv v \<Longrightarrow> visual_inv (visual_step ev v)"
  by (cases ev) (simp_all add: inv_updated inv_properties inv_disconnectedCallback)

lemma inv_fold: "visual_inv v \<Longrightarrow> visual_inv (fold visual_step events v)"
  by (induction events arbitrary: v) (simp_all add: inv_visual_step)

lemma inv_visual_run: "visual_inv (visual_run events)"
  unfolding visual_run_def using inv_initial by (rule inv_fold)

text \<open>
  C9. After every sequence of attachments and detachments of sources, no call of the
  visualizer has closed an audio context of the host; tearing down a microphone source
  makes at most one call, the disconnection of the visualizer's current analyser from the
  borrowed gain node, and changes nothing else; that analyser is one the visualizer
  created, and while the teardown of a microphone source is pending it is the analyser
  that was connected to that gain node.
\<close>

theorem mic_teardown_only_disconnects:
  "(\<forall>k. Close (Host k) \<notin> set (audio_calls (visual_run events))) \<and>
   run_cleanup (MicCleanup micInputNode) (visual_run events) =
     (visual_run events)\<lparr>audio_calls := audio_calls (visual_run events) @
        (case analyser (visual_run events) of
           None \<Rightarrow> []
         | Some a \<Rightarrow> [DisconnectGain micInputNode a])\<rparr> \<and>
   (\<forall>a. analyser (visual_run events) = Some a \<longrightarrow>
      (\<exists>audioContext. CreateAnalyser audioContext a \<in> set (audio_calls (visual_run events)))) \<and>
   (\<forall>g a. sourceCleanup (visual_run events) = Some (MicCleanup g) \<and>
      analyser (visual_run events) = Some a \<longrightarrow>
      ConnectGain g a \<in> set (audio_calls (visual_run events)))"
proof -
  have "visual_inv (visual_run events)" by (rule inv_visual_run)
  moreover have "run_cleanup (MicCleanup micInputNode) v =
     v\<lparr>audio_calls := audio_calls v @
        (case analyser v of None \<Rightarrow> [] | Some a \<Rightarrow> [DisconnectGain micInputNode a])\<rparr>" for v
    by (simp add: run_cleanup_def split: option.splits)
  ultimately show ?thesis by (simp add: visual_inv_def)
qed

theorem mic_teardown_only_disconnects_witness:
  "Close (Host 0) \<notin> set (audio_calls (visual_run sample_visual_events)) \<and>
   analyser (visual_run sample_visual_events) = Some (Analyser 4 (Host 0)) \<and>
   audio_calls (run_cleanup (MicCleanup sample_gain) (visual_run sample_visual_events)) =
     audio_calls (visual_run sample_visual_events) @ [DisconnectGain sample_gain (Analyser 4 (Host 0))] \<and>
   CreateAnalyser (Host 0) (Analyser 4 (Host 0)) \<in> set (audio_calls (visual_run sample_visual_events))"
proof -
  have a: "analyser (visual_run sample_visual_events) = Some (Analyser 4 (Host 0))"
    by code_simp
  have c: "CreateAnalyser (Host 0) (Analyser 4 (Host 0)) \<in> set (audio_calls (visual_run sample_visual_events))"
    by code_simp
  from mic_teardown_only_disconnects [of sample_visual_events sample_gain]
  have "Close (Host 0) \<notin> set (audio_calls (visual_run sample_visual_events))"
    and "run_cleanup (MicCleanup sample_gain) (visual_run sample_visual_events) =
     (visual_run sample_visual_events)\<lparr>audio_calls := audio_calls (visual_run sample_visual_events) @
        (case analyser (visual_run sample_visual_events) of
           None \<Rightarrow> []
         | Some a \<Rightarrow> [DisconnectGain sample_gain a])\<rparr>"
    by blast+
  with a c show ?thesis by simp
qed

end
